theory Spec2Isabelle
  imports Complex_Main "HOL-Library.Log_Nat" "HOL-Library.Multiset"
begin

section \<open>The data loader of the road-accident-risk demo (js/data-loader.js)\<close>

text \<open>
  The development embeds the class \<open>DataLoader\<close>: the CSV parser, schema inference, the
  row filter, and \<open>prepareMatrices\<close> (encoding, scaling, seeded split).

  Conventions of the embedding.
  \<^item> A JavaScript string is a \<open>string\<close>; a character stands for one code unit below 256
    (so \<open>0xA0\<close> is the no-break space and \<open>0xD7\<close> the multiplication sign).
  \<^item> A JavaScript object with string values is an association list in insertion order
    with unique keys; a missing key reads as \<open>None\<close> (\<open>undefined\<close>). The parser's
    assignment \<open>obj[h] = cell\<close> under the name \<open>__proto__\<close> reaches the setter that
    \<open>Object.prototype\<close> provides and creates no key; \<open>mkRow\<close> models that. Reads of
    the names that \<open>Object.prototype\<close> provides (\<open>constructor\<close>, ...) are not
    modelled: a name that an object does not hold reads as \<open>undefined\<close>.
  \<^item> A number is a \<open>jsval\<close>. \<open>Fin x\<close> is the finite double of value \<open>x\<close>, and the
    arithmetic is that of binary64: the exact result of an operation is rounded to the
    nearest double, ties to even, with gradual underflow, and becomes an infinity when the
    rounded magnitude reaches \<open>2^1024\<close> (\<open>toDouble\<close>). The special values \<open>NaN\<close>,
    \<open>Infinity\<close>, \<open>-Infinity\<close> and \<open>undefined\<close> are constructors of their own. The two
    zeros are the one value \<open>Fin 0\<close>: where the code divides, the divisor has passed
    \<open>|| 1\<close> or \<open>Math.max(1, ...)\<close>, or both operands are zero.
  \<^item> A parameter with a default value stands for the value after the default has been
    applied; the seed of the shuffle is any number.
  \<^item> A method that can throw returns the loader as it is left behind together with
    \<open>Inl\<close> of the error or \<open>Inr\<close> of the result.
  \<^item> An engine takes a bounded number of arguments in one call and throws a
    \<open>RangeError\<close> beyond its bound, which matters for the spread calls
    \<open>Math.min(...col)\<close> and \<open>row.push(...one)\<close>. The bound is the parameter \<open>maxArgs\<close> of
    \<open>inferSchemaOn\<close> and \<open>prepareMatricesOn\<close>; \<open>None\<close> is an engine without a bound
    (the language sets none), and \<open>inferSchema\<close> and \<open>prepareMatrices\<close> are the methods
    on such an engine.
\<close>

subsection \<open>Strings\<close>

definition isWhite :: "char \<Rightarrow> bool" where
  "isWhite c = (c \<in> set [CHR 0x09, CHR 0x0A, CHR 0x0B, CHR 0x0C, CHR 0x0D, CHR 0x20, CHR 0xA0])"

text \<open>\<open>String.prototype.trim\<close>.\<close>

definition trim :: "string \<Rightarrow> string" where
  "trim s = rev (dropWhile isWhite (rev (dropWhile isWhite s)))"

text \<open>Puts a character in front of the first piece of a split.\<close>

fun consHead :: "char \<Rightarrow> string list \<Rightarrow> string list" where
  "consHead c [] = [[c]]"
| "consHead c (p # ps) = (c # p) # ps"

text \<open>\<open>s.split(',')\<close> for a one-character separator: always at least one piece.\<close>

fun splitOn :: "char \<Rightarrow> string \<Rightarrow> string list" where
  "splitOn d [] = [[]]"
| "splitOn d (c # cs) = (if c = d then [] # splitOn d cs else consHead c (splitOn d cs))"

text \<open>\<open>s.split(/\r?\n/)\<close>: a line feed, with one carriage return right before it if any.\<close>

fun splitLines :: "string \<Rightarrow> string list" where
  "splitLines [] = [[]]"
| "splitLines [c] = (if c = CHR 0x0A then [[], []] else [[c]])"
| "splitLines (c # d # ds) =
     (if c = CHR 0x0A then [] # splitLines (d # ds)
      else if c = CHR 0x0D \<and> d = CHR 0x0A then [] # splitLines ds
      else consHead c (splitLines (d # ds)))"

text \<open>\<open>String.prototype.toLowerCase\<close> on code units below 256.\<close>

definition lowerChar :: "char \<Rightarrow> char" where
  "lowerChar c =
     (let n = (of_char c :: nat)
      in if (65 \<le> n \<and> n \<le> 90) \<or> (192 \<le> n \<and> n \<le> 222 \<and> n \<noteq> 215) then char_of (n + 32) else c)"

definition toLowerCase :: "string \<Rightarrow> string" where
  "toLowerCase s = map lowerChar s"

text \<open>\<open>String(v)\<close> for a value that is a string or \<open>undefined\<close>.\<close>

definition String_of :: "string option \<Rightarrow> string" where
  "String_of v = (case v of None \<Rightarrow> ''undefined'' | Some s \<Rightarrow> s)"

text \<open>The decimal rendering of a length inside a template literal.\<close>

fun showNat :: "nat \<Rightarrow> string" where
  "showNat n =
     (if n < 10 then [char_of (48 + n)] else showNat (n div 10) @ [char_of (48 + n mod 10)])"

declare showNat.simps [simp del]

subsection \<open>Objects\<close>

text \<open>\<open>obj[k] = v\<close>: an existing key keeps its place, a new key goes last.\<close>

fun obj_put :: "(string \<times> 'v) list \<Rightarrow> string \<Rightarrow> 'v \<Rightarrow> (string \<times> 'v) list" where
  "obj_put [] k v = [(k, v)]"
| "obj_put ((k', v') # ps) k v = (if k' = k then (k, v) # ps else (k', v') # obj_put ps k v)"

text \<open>\<open>obj[k]\<close>: \<open>None\<close> is \<open>undefined\<close>.\<close>

definition obj_get :: "(string \<times> 'v) list \<Rightarrow> string \<Rightarrow> 'v option" where
  "obj_get ps k = map_of ps k"

definition isDigit :: "char \<Rightarrow> bool" where
  "isDigit c = (48 \<le> (of_char c :: nat) \<and> (of_char c :: nat) \<le> 57)"

definition digitVal :: "char \<Rightarrow> nat" where
  "digitVal c = (of_char c :: nat) - 48"

definition natOfDigits :: "string \<Rightarrow> nat" where
  "natOfDigits s = foldl (\<lambda>a c. 10 * a + digitVal c) 0 s"

text \<open>
  An array index in the sense of the language: the canonical decimal string of an integer
  up to \<open>2^32 - 2\<close>. \<open>Object.keys\<close> and \<open>Object.entries\<close> list such keys first, in
  ascending order, and the other keys after them in insertion order.
\<close>

definition isArrayIndex :: "string \<Rightarrow> bool" where
  "isArrayIndex s =
     (s \<noteq> [] \<and> list_all isDigit s \<and> (hd s \<noteq> CHR ''0'' \<or> length s = 1)
      \<and> length s \<le> 10 \<and> natOfDigits s \<le> 4294967294)"

subsection \<open>The CSV parser\<close>

type_synonym row = "(string \<times> string) list"

text \<open>\<open>cells[i] === undefined ? '' : cells[i]\<close>.\<close>

definition cellOr :: "string list \<Rightarrow> nat \<Rightarrow> string" where
  "cellOr cells i = (if i < length cells then cells ! i else [])"

text \<open>
  \<open>obj[h] = cell\<close> on a row under construction, the cell being a string. Under the name
  \<open>__proto__\<close> the assignment calls the setter inherited from \<open>Object.prototype\<close>, which
  ignores a value that is not an object: the row gets no key and stays as it is.
\<close>

definition row_put :: "row \<Rightarrow> string \<Rightarrow> string \<Rightarrow> row" where
  "row_put obj h cell = (if h = ''__proto__'' then obj else obj_put obj h cell)"

text \<open>\<open>headers.forEach((h,i) => obj[h] = ...)\<close> on a fresh object.\<close>

definition mkRow :: "string list \<Rightarrow> string list \<Rightarrow> row" where
  "mkRow headers cells =
     fold (\<lambda>(h, i) obj. row_put obj h (cellOr cells i)) (zip headers [0 ..< length headers]) []"

definition csvLines :: "string \<Rightarrow> string list" where
  "csvLines text = splitLines (trim text)"

definition csvHeaders :: "string \<Rightarrow> string list" where
  "csvHeaders text = map trim (splitOn CHR '','' (hd (csvLines text)))"

definition csvCells :: "string \<Rightarrow> string list" where
  "csvCells line = map trim (splitOn CHR '','' line)"

text \<open>\<open>#parseCSV\<close>. The split never yields the empty array, so the header line exists.\<close>

definition parseCSV :: "string \<Rightarrow> row list" where
  "parseCSV text =
     (case csvLines text of
        [] \<Rightarrow> []
      | headerLine # lines \<Rightarrow>
          (let headers = map trim (splitOn CHR '','' headerLine)
           in map (\<lambda>line. mkRow headers (csvCells line)) lines))"

subsection \<open>Numbers\<close>

text \<open>
  The values that occur where the code expects a number. \<open>Fin x\<close> is the finite double
  of value \<open>x\<close>; \<open>Undefined\<close> is what reading a missing array element gives.
\<close>

datatype jsval = Fin real | NaN | PosInf | NegInf | Undefined

text \<open>\<open>Number.isFinite\<close>.\<close>

fun isFinite :: "jsval \<Rightarrow> bool" where
  "isFinite (Fin x) = True"
| "isFinite v = False"

text \<open>
  Rounding to binary64. For \<open>a > 0\<close>, \<open>ilog2 a\<close> is the exponent \<open>e\<close> with
  \<open>2^e \<le> a < 2^(e+1)\<close>.
\<close>

definition ilog2 :: "real \<Rightarrow> int" where
  "ilog2 a = (if 1 \<le> a then bitlen \<lfloor>a\<rfloor> - 1 else - bitlen (\<lceil>1 / a\<rceil> - 1))"

text \<open>The nearest integer, a tie going to the even neighbour.\<close>

definition roundHalfEven :: "real \<Rightarrow> int" where
  "roundHalfEven q =
     (if q - of_int \<lfloor>q\<rfloor> < 1 / 2 then \<lfloor>q\<rfloor>
      else if 1 / 2 < q - of_int \<lfloor>q\<rfloor> then \<lfloor>q\<rfloor> + 1
      else if even \<lfloor>q\<rfloor> then \<lfloor>q\<rfloor> else \<lfloor>q\<rfloor> + 1)"

text \<open>
  The exponent of the binade of \<open>a\<close>, the subnormal numbers sharing the exponent \<open>-1022\<close>
  of the least normal ones, and the distance of neighbouring doubles there: a double has
  53 significant bits.
\<close>

definition binade :: "real \<Rightarrow> int" where
  "binade a = max (ilog2 a) (- 1022)"

definition ulp :: "real \<Rightarrow> real" where
  "ulp a = 2 powi (binade a - 52)"

text \<open>The magnitude \<open>a \<ge> 0\<close> rounded to a multiple of the distance in its binade.\<close>

definition roundAbs :: "real \<Rightarrow> real" where
  "roundAbs a = of_int (roundHalfEven (a / ulp a)) * ulp a"

text \<open>
  The double nearest to the real \<open>x\<close>: the result of an arithmetic operation whose exact
  value is \<open>x\<close>, and the value of a numeric literal that denotes \<open>x\<close>.
\<close>

definition toDouble :: "real \<Rightarrow> jsval" where
  "toDouble x =
     (if 2 ^ 1024 \<le> roundAbs \<bar>x\<bar> then (if 0 < x then PosInf else NegInf)
      else Fin (sgn x * roundAbs \<bar>x\<bar>))"

fun js_neg :: "jsval \<Rightarrow> jsval" where
  "js_neg (Fin x) = Fin (- x)"
| "js_neg PosInf = NegInf"
| "js_neg NegInf = PosInf"
| "js_neg v = NaN"

definition isHexDigit :: "char \<Rightarrow> bool" where
  "isHexDigit c =
     (let n = (of_char c :: nat)
      in (48 \<le> n \<and> n \<le> 57) \<or> (65 \<le> n \<and> n \<le> 70) \<or> (97 \<le> n \<and> n \<le> 102))"

definition hexVal :: "char \<Rightarrow> nat" where
  "hexVal c =
     (let n = (of_char c :: nat)
      in if n \<le> 57 then n - 48 else if n \<le> 70 then n - 55 else n - 87)"

text \<open>The digits of a literal in base \<open>b\<close>, all below \<open>b\<close>, at least one.\<close>

definition radixLiteral :: "nat \<Rightarrow> string \<Rightarrow> jsval" where
  "radixLiteral b s =
     (if s \<noteq> [] \<and> list_all (\<lambda>c. isHexDigit c \<and> hexVal c < b) s
      then toDouble (real (foldl (\<lambda>a c. b * a + hexVal c) 0 s))
      else NaN)"

text \<open>The exponent part after the mantissa: nothing, or \<open>e\<close>, a sign and digits.\<close>

definition exponentPart :: "string \<Rightarrow> int option" where
  "exponentPart s =
     (case s of
        [] \<Rightarrow> Some 0
      | c # r \<Rightarrow>
          if c = CHR ''e'' \<or> c = CHR ''E'' then
            (let (neg, ds) = (case r of [] \<Rightarrow> (False, [])
                              | d # r' \<Rightarrow> if d = CHR ''-'' then (True, r')
                                          else if d = CHR ''+'' then (False, r') else (False, r))
             in if ds \<noteq> [] \<and> list_all isDigit ds
                then Some (if neg then - int (natOfDigits ds) else int (natOfDigits ds))
                else None)
          else None)"

text \<open>
  An unsigned decimal literal: \<open>Infinity\<close>, or digits with a fraction and an exponent. The
  value that the digits denote is a real number; the result is the double nearest to it.
\<close>

definition unsignedDecimal :: "string \<Rightarrow> jsval" where
  "unsignedDecimal s =
     (if s = ''Infinity'' then PosInf
      else
        (let ip = takeWhile isDigit s; r1 = dropWhile isDigit s;
             dot = (r1 \<noteq> [] \<and> hd r1 = CHR ''.'');
             fp = (if dot then takeWhile isDigit (tl r1) else []);
             r2 = (if dot then dropWhile isDigit (tl r1) else r1)
         in if ip = [] \<and> fp = [] then NaN
            else (case exponentPart r2 of
                    None \<Rightarrow> NaN
                  | Some e \<Rightarrow>
                      (let m = real (natOfDigits (ip @ fp));
                           k = e - int (length fp)
                       in toDouble (if 0 \<le> k then m * 10 ^ nat k else m / 10 ^ nat (- k))))))"

text \<open>\<open>Number(s)\<close> for a string: the empty or blank string is \<open>0\<close>.\<close>

definition Number_str :: "string \<Rightarrow> jsval" where
  "Number_str s =
     (let t = trim s
      in if t = [] then Fin 0
         else if take 2 t = ''0x'' \<or> take 2 t = ''0X'' then radixLiteral 16 (drop 2 t)
         else if take 2 t = ''0o'' \<or> take 2 t = ''0O'' then radixLiteral 8 (drop 2 t)
         else if take 2 t = ''0b'' \<or> take 2 t = ''0B'' then radixLiteral 2 (drop 2 t)
         else if hd t = CHR ''-'' then js_neg (unsignedDecimal (tl t))
         else if hd t = CHR ''+'' then unsignedDecimal (tl t)
         else unsignedDecimal t)"

text \<open>\<open>Number(v)\<close> for a cell that may be missing: \<open>Number(undefined)\<close> is \<open>NaN\<close>.\<close>

definition Number_of :: "string option \<Rightarrow> jsval" where
  "Number_of v = (case v of None \<Rightarrow> NaN | Some s \<Rightarrow> Number_str s)"

text \<open>\<open>#toNumberMaybe\<close>.\<close>

definition toNumberMaybe :: "string option \<Rightarrow> jsval" where
  "toNumberMaybe v =
     (if v = Some [] \<or> v = None then NaN
      else (let n = Number_of v in if isFinite n then n else NaN))"

text \<open>
  The arithmetic operators \<open>+\<close>, \<open>-\<close>, \<open>*\<close>, \<open>/\<close> and \<open>Math.sqrt\<close>: the exact result on
  finite operands, rounded to a double.
\<close>

fun js_add :: "jsval \<Rightarrow> jsval \<Rightarrow> jsval" where
  "js_add (Fin a) (Fin b) = toDouble (a + b)"
| "js_add (Fin a) PosInf = PosInf"
| "js_add (Fin a) NegInf = NegInf"
| "js_add PosInf (Fin b) = PosInf"
| "js_add NegInf (Fin b) = NegInf"
| "js_add PosInf PosInf = PosInf"
| "js_add NegInf NegInf = NegInf"
| "js_add a b = NaN"

definition js_sub :: "jsval \<Rightarrow> jsval \<Rightarrow> jsval" where
  "js_sub a b = js_add a (js_neg b)"

fun js_mul :: "jsval \<Rightarrow> jsval \<Rightarrow> jsval" where
  "js_mul (Fin a) (Fin b) = toDouble (a * b)"
| "js_mul (Fin a) PosInf = (if a = 0 then NaN else if 0 < a then PosInf else NegInf)"
| "js_mul (Fin a) NegInf = (if a = 0 then NaN else if 0 < a then NegInf else PosInf)"
| "js_mul PosInf (Fin b) = (if b = 0 then NaN else if 0 < b then PosInf else NegInf)"
| "js_mul NegInf (Fin b) = (if b = 0 then NaN else if 0 < b then NegInf else PosInf)"
| "js_mul PosInf PosInf = PosInf"
| "js_mul NegInf NegInf = PosInf"
| "js_mul PosInf NegInf = NegInf"
| "js_mul NegInf PosInf = NegInf"
| "js_mul a b = NaN"

text \<open>Division; a zero divisor is taken as \<open>+0\<close>.\<close>

fun js_div :: "jsval \<Rightarrow> jsval \<Rightarrow> jsval" where
  "js_div (Fin a) (Fin b) =
     (if b \<noteq> 0 then toDouble (a / b)
      else if a = 0 then NaN else if 0 < a then PosInf else NegInf)"
| "js_div (Fin a) PosInf = Fin 0"
| "js_div (Fin a) NegInf = Fin 0"
| "js_div PosInf (Fin b) = (if 0 \<le> b then PosInf else NegInf)"
| "js_div NegInf (Fin b) = (if 0 \<le> b then NegInf else PosInf)"
| "js_div a b = NaN"

fun js_sqrt :: "jsval \<Rightarrow> jsval" where
  "js_sqrt (Fin a) = (if a < 0 then NaN else toDouble (sqrt a))"
| "js_sqrt PosInf = PosInf"
| "js_sqrt v = NaN"

text \<open>\<open>Math.floor\<close>: the floor of a double is a double.\<close>

fun js_floor :: "jsval \<Rightarrow> jsval" where
  "js_floor (Fin a) = Fin (of_int \<lfloor>a\<rfloor>)"
| "js_floor PosInf = PosInf"
| "js_floor NegInf = NegInf"
| "js_floor v = NaN"

text \<open>
  The remainder operator \<open>%\<close>: the magnitude is that of the dividend reduced by the
  magnitude of the divisor, the sign is that of the dividend, and the result is exact.
\<close>

fun js_rem :: "jsval \<Rightarrow> jsval \<Rightarrow> jsval" where
  "js_rem (Fin a) (Fin b) =
     (if b = 0 then NaN else Fin (sgn a * (\<bar>a\<bar> - \<bar>b\<bar> * of_int \<lfloor>\<bar>a\<bar> / \<bar>b\<bar>\<rfloor>)))"
| "js_rem (Fin a) PosInf = Fin a"
| "js_rem (Fin a) NegInf = Fin a"
| "js_rem a b = NaN"

text \<open>\<open>a < b\<close> on numbers; a comparison with \<open>NaN\<close> or \<open>undefined\<close> is false.\<close>

fun js_lt :: "jsval \<Rightarrow> jsval \<Rightarrow> bool" where
  "js_lt (Fin a) (Fin b) = (a < b)"
| "js_lt (Fin a) PosInf = True"
| "js_lt NegInf (Fin b) = True"
| "js_lt NegInf PosInf = True"
| "js_lt a b = False"

text \<open>Truthiness of a number, and \<open>x || 1\<close>.\<close>

fun truthy :: "jsval \<Rightarrow> bool" where
  "truthy (Fin x) = (x \<noteq> 0)"
| "truthy PosInf = True"
| "truthy NegInf = True"
| "truthy v = False"

definition orElse :: "jsval \<Rightarrow> jsval \<Rightarrow> jsval" where
  "orElse a b = (if truthy a then a else b)"

fun isNaN :: "jsval \<Rightarrow> bool" where
  "isNaN NaN = True"
| "isNaN Undefined = True"
| "isNaN v = False"

text \<open>\<open>Math.min(...xs)\<close> and \<open>Math.max(...xs)\<close>: the empty call gives the infinities.\<close>

definition min2 :: "jsval \<Rightarrow> jsval \<Rightarrow> jsval" where
  "min2 a b = (if isNaN a \<or> isNaN b then NaN else if js_lt b a then b else a)"

definition max2 :: "jsval \<Rightarrow> jsval \<Rightarrow> jsval" where
  "max2 a b = (if isNaN a \<or> isNaN b then NaN else if js_lt a b then b else a)"

definition Math_min :: "jsval list \<Rightarrow> jsval" where
  "Math_min xs = foldl min2 PosInf xs"

definition Math_max :: "jsval list \<Rightarrow> jsval" where
  "Math_max xs = foldl max2 NegInf xs"

text \<open>\<open>Math.max(1, n)\<close> for a length.\<close>

definition atLeastOne :: "nat \<Rightarrow> jsval" where
  "atLeastOne n = Fin (real (max 1 n))"

subsection \<open>The loader\<close>

datatype ftype = Numeric | Boolean | Categorical

record fstats =
  st_min :: jsval
  st_max :: jsval
  st_mean :: jsval
  st_std :: jsval
  st_count :: nat

text \<open>A feature descriptor \<open>{name, type, stats?, values?}\<close>.\<close>

record feature =
  fname :: string
  ftype :: ftype
  fstats :: "fstats option"
  fvalues :: "string list option"

record schema =
  features :: "(string \<times> feature) list"
  target :: string

record colstats =
  cs_min :: jsval
  cs_max :: jsval
  cs_mean :: jsval
  cs_std :: jsval

text \<open>\<open>this.scalers\<close>: \<open>{}\<close> at first, then \<open>{type, stats}\<close> with one entry per scaled column.\<close>

record scalers =
  sc_type :: "string option"
  sc_stats :: "(nat \<times> colstats) list"

text \<open>\<open>this.split\<close>; an element is a row index, or \<open>None\<close> for \<open>undefined\<close>.\<close>

record split =
  idxTrain :: "nat option list"
  idxVal :: "nat option list"
  idxTest :: "nat option list"

text \<open>
  The fields of a \<open>DataLoader\<close>. \<open>ld_log msg\<close> tells whether the callback \<open>this.log\<close>
  returns normally on \<open>msg\<close> (it is code of the caller and may throw).
\<close>

record loader =
  ld_raw :: "row list option"
  ld_schema :: "schema option"
  ld_encoders :: "(string \<times> string list) list"
  ld_scalers :: scalers
  ld_X :: "jsval list list option"
  ld_y :: "jsval list list option"
  ld_split :: split
  ld_log :: "string \<Rightarrow> bool"

text \<open>The state the constructor leaves.\<close>

definition newLoader :: "(string \<Rightarrow> bool) \<Rightarrow> loader" where
  "newLoader logFn =
     \<lparr>ld_raw = None, ld_schema = None, ld_encoders = [],
      ld_scalers = \<lparr>sc_type = None, sc_stats = []\<rparr>, ld_X = None, ld_y = None,
      ld_split = \<lparr>idxTrain = [], idxVal = [], idxTest = []\<rparr>, ld_log = logFn\<rparr>"

text \<open>
  What a method throws: a \<open>TypeError\<close> of the runtime (a property of \<open>null\<close> is read),
  a \<open>RangeError\<close> of the runtime (a call with more arguments than the engine takes),
  an \<open>Error\<close> with its message, or whatever a callback threw.
\<close>

datatype error = TypeError | RangeError | Error string | Thrown

text \<open>Whether a spread call with the arguments \<open>args\<close> goes beyond the bound of the engine.\<close>

definition tooMany :: "nat option \<Rightarrow> 'a list \<Rightarrow> bool" where
  "tooMany maxArgs args = (case maxArgs of None \<Rightarrow> False | Some n \<Rightarrow> n < length args)"

subsection \<open>Schema inference\<close>

text \<open>\<open>Object.entries\<close>: array-index keys first, ascending, then insertion order.\<close>

definition own_entries :: "(string \<times> 'v) list \<Rightarrow> (string \<times> 'v) list" where
  "own_entries ps =
     sort_key (\<lambda>p. natOfDigits (fst p)) (filter (\<lambda>p. isArrayIndex (fst p)) ps) @
     filter (\<lambda>p. \<not> isArrayIndex (fst p)) ps"

text \<open>\<open>new Set(xs)\<close> spread into an array: first occurrences, in order.\<close>

definition uniqueOf :: "string list \<Rightarrow> string list" where
  "uniqueOf xs = foldl (\<lambda>acc x. if x \<in> set acc then acc else acc @ [x]) [] xs"

definition knownCategoricals :: "string list" where
  "knownCategoricals =
     [''road_type'', ''lighting'', ''weather'', ''time_of_day'',
      ''road_signs_present'', ''public_road'', ''holiday'', ''school_season'']"

definition knownNumeric :: "string list" where
  "knownNumeric = [''num_lanes'', ''curvature'', ''speed_limit'', ''num_reported_accidents'']"

text \<open>The values of a column in the sniffed sample, \<open>raw.slice(0, Math.min(5000, n))\<close>.\<close>

definition sampleVals :: "row list \<Rightarrow> string \<Rightarrow> string option list" where
  "sampleVals rows col = map (\<lambda>r. obj_get r col) (take (min 5000 (length rows)) rows)"

definition numericRatio :: "string option list \<Rightarrow> jsval" where
  "numericRatio vals =
     js_div (Fin (real (length (filter (\<lambda>v. isFinite (Number_of v)) vals))))
            (Fin (real (length vals)))"

text \<open>The type a column gets in the first loop of \<open>#inferSchema\<close>.\<close>

definition sniffType :: "row list \<Rightarrow> string \<Rightarrow> ftype" where
  "sniffType rows col =
     (let t0 = Numeric;
          t1 = (if col \<in> set knownCategoricals then Categorical else t0);
          t2 = (if col \<in> set knownNumeric then Numeric else t1)
      in if col \<notin> set knownCategoricals \<and> col \<notin> set knownNumeric then
           (let vals = sampleVals rows col;
                uniq = uniqueOf (map String_of vals);
                t3 = (if js_lt (toDouble (9 / 10)) (numericRatio vals) then Numeric else t2);
                t4 = (if length uniq \<le> 10 then Categorical else t3)
            in t4)
         else t2)"

definition sumOf :: "jsval list \<Rightarrow> jsval" where
  "sumOf xs = foldl js_add (Fin 0) xs"

definition sumSqDev :: "jsval \<Rightarrow> jsval list \<Rightarrow> jsval" where
  "sumSqDev mean xs = foldl (\<lambda>s v. js_add s (js_mul (js_sub v mean) (js_sub v mean))) (Fin 0) xs"

text \<open>The second loop, numeric branch.\<close>

definition numericStats :: "row list \<Rightarrow> string \<Rightarrow> fstats" where
  "numericStats rows k =
     (let arr = filter isFinite (map (\<lambda>r. toNumberMaybe (obj_get r k)) rows);
          mean = orElse (js_div (sumOf arr) (Fin (real (length arr)))) (Fin 0);
          std = js_sqrt (js_div (sumSqDev mean arr) (atLeastOne (length arr - 1)))
      in \<lparr>st_min = Math_min arr, st_max = Math_max arr, st_mean = mean, st_std = std,
          st_count = length arr\<rparr>)"

text \<open>The second loop, the other branch: the observed values, and the recast to boolean.\<close>

definition observedValues :: "row list \<Rightarrow> string \<Rightarrow> string list" where
  "observedValues rows k =
     filter (\<lambda>v. v \<noteq> [] \<and> v \<noteq> ''undefined'') (uniqueOf (map (\<lambda>r. String_of (obj_get r k)) rows))"

definition allTrueFalse :: "string list \<Rightarrow> bool" where
  "allTrueFalse vs = list_all (\<lambda>v. v = ''true'' \<or> v = ''false'') (map toLowerCase vs)"

definition refineFeature :: "row list \<Rightarrow> string \<Rightarrow> feature \<Rightarrow> feature" where
  "refineFeature rows k f =
     (if ftype f = Numeric then f\<lparr>fstats := Some (numericStats rows k)\<rparr>
      else
        (let vs = observedValues rows k
         in if allTrueFalse vs then f\<lparr>ftype := Boolean, fvalues := Some [''True'', ''False'']\<rparr>
            else f\<lparr>fvalues := Some vs\<rparr>))"

text \<open>The \<open>features\<close> object after both loops, in its iteration order.\<close>

definition inferFeatures :: "row list \<Rightarrow> string \<Rightarrow> (string \<times> feature) list" where
  "inferFeatures rows tgt =
     (let cols = filter (\<lambda>k. k \<noteq> tgt) (map fst (own_entries (hd rows)));
          feats = fold (\<lambda>col fs. obj_put fs col
                     \<lparr>fname = col, ftype = sniffType rows col, fstats = None, fvalues = None\<rparr>)
                   cols []
      in map (\<lambda>(k, f). (k, refineFeature rows k f)) (own_entries feats))"

definition targetName :: string where
  "targetName = ''accident_risk''"

definition targetMissing :: error where
  "targetMissing = Error (''Target '' @ [CHR 0x22] @ targetName @ [CHR 0x22] @ '' not found in CSV.'')"

definition schemaMessage :: "schema \<Rightarrow> string" where
  "schemaMessage sch =
     ''Schema inferred. Features: '' @ showNat (length (features sch)) @ '', target: '' @ target sch"

text \<open>
  \<open>#inferSchema\<close> on an engine with the bound \<open>maxArgs\<close>. The second loop calls
  \<open>Math.min(...arr)\<close> with the finite values of each numeric feature (a feature is numeric
  after the second loop exactly when it is after the first); the call that goes beyond
  the bound throws before \<open>this.schema\<close> is assigned.
\<close>

definition inferSchemaOn :: "nat option \<Rightarrow> loader \<Rightarrow> loader \<times> (error + unit)" where
  "inferSchemaOn maxArgs st =
     (case ld_raw st of
        None \<Rightarrow> (st, Inl TypeError)
      | Some rows \<Rightarrow>
          if rows = [] \<or> obj_get (hd rows) targetName = None then (st, Inl targetMissing)
          else if \<exists>kf \<in> set (inferFeatures rows targetName).
                    ftype (snd kf) = Numeric \<and>
                    tooMany maxArgs (filter isFinite (map (\<lambda>r. toNumberMaybe (obj_get r (fst kf))) rows))
          then (st, Inl RangeError)
          else
            (let sch = \<lparr>features = inferFeatures rows targetName, target = targetName\<rparr>;
                 st' = st\<lparr>ld_schema := Some sch\<rparr>
             in if ld_log st' (schemaMessage sch) then (st', Inr ()) else (st', Inl Thrown)))"

text \<open>\<open>#inferSchema\<close> where no call goes beyond the bound of the engine.\<close>

definition inferSchema :: "loader \<Rightarrow> loader \<times> (error + unit)" where
  "inferSchema st = inferSchemaOn None st"

subsection \<open>Encoding\<close>

text \<open>\<open>(f.values||[]).map(v => String(v))\<close>.\<close>

definition valuesOf :: "feature \<Rightarrow> string list" where
  "valuesOf f = (case fvalues f of None \<Rightarrow> [] | Some vs \<Rightarrow> vs)"

text \<open>\<open>this.encoders[k] || []\<close>.\<close>

definition encoderOf :: "(string \<times> string list) list \<Rightarrow> string \<Rightarrow> string list" where
  "encoderOf enc k = (case obj_get enc k of None \<Rightarrow> [] | Some cats \<Rightarrow> cats)"

text \<open>
  The first loop of \<open>prepareMatrices\<close>: the encoder table and the feature names. The names
  of a categorical feature are read from the entry that was stored just before.
\<close>

fun buildEncoders ::
  "(string \<times> feature) list \<Rightarrow> (string \<times> string list) list \<times> string list
   \<Rightarrow> (string \<times> string list) list \<times> string list" where
  "buildEncoders [] acc = acc"
| "buildEncoders ((k, f) # fs) (enc, names) =
     (case ftype f of
        Numeric \<Rightarrow> buildEncoders fs (enc, names @ [k])
      | Boolean \<Rightarrow> buildEncoders fs (enc, names @ [k])
      | Categorical \<Rightarrow>
          (let enc' = obj_put enc k (valuesOf f)
           in buildEncoders fs (enc', names @ map (\<lambda>v. k @ ''__'' @ v) (encoderOf enc' k))))"

text \<open>One row of \<open>X\<close> before scaling.\<close>

definition encodeFeature :: "(string \<times> string list) list \<Rightarrow> row \<Rightarrow> string \<times> feature \<Rightarrow> jsval list" where
  "encodeFeature enc r kf =
     (case ftype (snd kf) of
        Numeric \<Rightarrow> [toNumberMaybe (obj_get r (fst kf))]
      | Boolean \<Rightarrow> [if String_of (obj_get r (fst kf)) = ''True'' then Fin 1 else Fin 0]
      | Categorical \<Rightarrow>
          map (\<lambda>v. if String_of (obj_get r (fst kf)) = v then Fin 1 else Fin 0)
              (encoderOf enc (fst kf)))"

definition encodeRow :: "(string \<times> string list) list \<Rightarrow> (string \<times> feature) list \<Rightarrow> row \<Rightarrow> jsval list" where
  "encodeRow enc fs r = concat (map (encodeFeature enc r) fs)"

subsection \<open>Scaling\<close>

text \<open>The walk that finds the columns to scale, from column \<open>colPointer\<close> on.\<close>

fun colIdxFrom :: "(string \<times> string list) list \<Rightarrow> (string \<times> feature) list \<Rightarrow> nat \<Rightarrow> nat list" where
  "colIdxFrom enc [] colPointer = []"
| "colIdxFrom enc ((k, f) # fs) colPointer =
     (if ftype f = Numeric \<or> ftype f = Boolean then colPointer # colIdxFrom enc fs (colPointer + 1)
      else colIdxFrom enc fs (colPointer + length (encoderOf enc k)))"

definition numericColIdx :: "(string \<times> string list) list \<Rightarrow> (string \<times> feature) list \<Rightarrow> nat list" where
  "numericColIdx enc fs = colIdxFrom enc fs 0"

text \<open>\<open>r[c]\<close> and \<open>r[c] = v\<close> on an array: a read past the end is \<open>undefined\<close>, a write
  past the end extends the array.\<close>

definition getCell :: "jsval list \<Rightarrow> nat \<Rightarrow> jsval" where
  "getCell r c = (if c < length r then r ! c else Undefined)"

definition setCell :: "jsval list \<Rightarrow> nat \<Rightarrow> jsval \<Rightarrow> jsval list" where
  "setCell r c v =
     (if c < length r then r[c := v] else r @ replicate (c - length r) Undefined @ [v])"

text \<open>The statistics of column \<open>c\<close>, over its finite cells.\<close>

definition fitColumn :: "jsval list list \<Rightarrow> nat \<Rightarrow> colstats" where
  "fitColumn Xmat c =
     (let col = filter isFinite (map (\<lambda>r. getCell r c) Xmat);
          mean = js_div (sumOf col) (atLeastOne (length col));
          std = js_sqrt (js_div (sumSqDev mean col) (atLeastOne (length col - 1)))
      in \<lparr>cs_min = Math_min col, cs_max = Math_max col, cs_mean = mean, cs_std = std\<rparr>)"

definition fitScalers :: "jsval list list \<Rightarrow> nat list \<Rightarrow> (nat \<times> colstats) list" where
  "fitScalers Xmat idxs = map (\<lambda>c. (c, fitColumn Xmat c)) idxs"

text \<open>The body of the scaling loop for one cell.\<close>

definition scaleValue :: "string \<Rightarrow> colstats \<Rightarrow> jsval \<Rightarrow> jsval" where
  "scaleValue scalerType st v =
     (if \<not> isFinite v then Fin 0
      else if scalerType = ''minmax'' then
        (let d = orElse (js_sub (cs_max st) (cs_min st)) (Fin 1) in js_div (js_sub v (cs_min st)) d)
      else
        (let d = orElse (cs_std st) (Fin 1) in js_div (js_sub v (cs_mean st)) d))"

text \<open>
  The inner loop on one row. The entry \<open>stats[c]\<close> exists for every \<open>c\<close> the loop visits,
  since the loop before stored it; the other branch is never taken.
\<close>

definition scaleRow :: "string \<Rightarrow> (nat \<times> colstats) list \<Rightarrow> nat list \<Rightarrow> jsval list \<Rightarrow> jsval list" where
  "scaleRow scalerType stats idxs r =
     fold (\<lambda>c r'. case map_of stats c of
                     None \<Rightarrow> r'
                   | Some st \<Rightarrow> setCell r' c (scaleValue scalerType st (getCell r' c)))
          idxs r"

definition applyScaling ::
  "string \<Rightarrow> (nat \<times> colstats) list \<Rightarrow> nat list \<Rightarrow> jsval list list \<Rightarrow> jsval list list" where
  "applyScaling scalerType stats idxs Xmat = map (scaleRow scalerType stats idxs) Xmat"

subsection \<open>The seeded split\<close>

text \<open>
  The array being shuffled: its elements, and the properties that a write under a key
  that is no index of the array creates (such a write does not change the elements, and a
  read of a property that was never written is \<open>undefined\<close>). A key is a number; it
  names the element \<open>n\<close> when it is the integer \<open>n\<close> below the length. An integer at or
  past the length is never picked, see \<open>pickIndex\<close>; the model treats it like the other
  keys.
\<close>

record jsarr =
  elems :: "nat option list"
  props :: "(jsval \<times> nat option) list"

definition elemIndex :: "jsarr \<Rightarrow> jsval \<Rightarrow> nat option" where
  "elemIndex a j =
     (case j of
        Fin r \<Rightarrow> if 0 \<le> r \<and> r < real (length (elems a)) \<and> of_int \<lfloor>r\<rfloor> = r
                 then Some (nat \<lfloor>r\<rfloor>) else None
      | _ \<Rightarrow> None)"

definition arr_get :: "jsarr \<Rightarrow> jsval \<Rightarrow> nat option" where
  "arr_get a j =
     (case elemIndex a j of
        Some n \<Rightarrow> elems a ! n
      | None \<Rightarrow> (case map_of (props a) j of None \<Rightarrow> None | Some v \<Rightarrow> v))"

definition arr_set :: "jsarr \<Rightarrow> jsval \<Rightarrow> nat option \<Rightarrow> jsarr" where
  "arr_set a j v =
     (case elemIndex a j of
        Some n \<Rightarrow> a\<lparr>elems := (elems a)[n := v]\<rparr>
      | None \<Rightarrow> a\<lparr>props := (j, v) # props a\<rparr>)"

text \<open>\<open>s = (s*16807) % 2147483647\<close>, in doubles.\<close>

definition lcgNext :: "jsval \<Rightarrow> jsval" where
  "lcgNext s = js_rem (js_mul s (Fin 16807)) (Fin 2147483647)"

text \<open>
  \<open>Math.floor(rnd()*(i+1))\<close>, where \<open>rnd()\<close> has returned \<open>s / 2147483647\<close> for the new
  state \<open>s\<close>; the quotient and the product are rounded. The loop index \<open>i\<close> is below
  the length of an array, so \<open>i+1\<close> is exact.
\<close>

definition pickIndex :: "jsval \<Rightarrow> nat \<Rightarrow> jsval" where
  "pickIndex s i = js_floor (js_mul (js_div s (Fin 2147483647)) (Fin (real i + 1)))"

text \<open>
  The loop of \<open>#shuffle\<close> from index \<open>i\<close> down to 1, with generator state \<open>s\<close>. The
  swap \<open>[a[i],a[j]]=[a[j],a[i]]\<close> reads both places, then writes \<open>a[i]\<close>, then \<open>a[j]\<close>.
\<close>

fun shuffleFrom :: "nat \<Rightarrow> jsval \<Rightarrow> jsarr \<Rightarrow> jsarr" where
  "shuffleFrom 0 s a = a"
| "shuffleFrom (Suc i) s a =
     (let s' = lcgNext s;
          j = pickIndex s' (Suc i);
          ai = arr_get a (Fin (real (Suc i)));
          aj = arr_get a j;
          a1 = arr_set a (Fin (real (Suc i))) aj;
          a2 = arr_set a1 j ai
      in shuffleFrom i s' a2)"

definition shuffle :: "nat option list \<Rightarrow> jsval \<Rightarrow> nat option list" where
  "shuffle a seed = elems (shuffleFrom (length a - 1) seed \<lparr>elems = a, props = []\<rparr>)"

text \<open>
  \<open>Math.floor(n * c)\<close> for the double \<open>c = m / 2^e\<close> with a 53-bit \<open>m\<close>: the exact
  product \<open>n * m\<close> is rounded to 53 significant bits, ties to even, then cut at the
  binary point.
\<close>

definition floorMul :: "nat \<Rightarrow> int \<Rightarrow> nat \<Rightarrow> nat" where
  "floorMul n m e =
     (let k = int n * m;
          sh = nat (bitlen k - 53);
          q = k div 2 ^ sh;
          r = k mod 2 ^ sh;
          q' = (if 2 * r > 2 ^ sh \<or> (2 * r = 2 ^ sh \<and> odd q) then q + 1 else q)
      in nat ((q' * 2 ^ sh) div 2 ^ e))"

text \<open>The doubles \<open>0.7 = 6305039478318694 / 2^53\<close> and \<open>0.15 = 5404319552844595 / 2^55\<close>.\<close>

definition nTrainOf :: "nat \<Rightarrow> nat" where
  "nTrainOf nRows = floorMul nRows 6305039478318694 53"

definition nValOf :: "nat \<Rightarrow> nat" where
  "nValOf nRows = floorMul nRows 5404319552844595 55"

definition splitIndices :: "nat \<Rightarrow> jsval \<Rightarrow> split" where
  "splitIndices nRows seed =
     (let idx = shuffle (map Some [0 ..< nRows]) seed;
          nTrain = nTrainOf nRows;
          nVal = nValOf nRows
      in \<lparr>idxTrain = take nTrain idx,
          idxVal = take nVal (drop nTrain idx),
          idxTest = drop (nTrain + nVal) idx\<rparr>)"

subsection \<open>prepareMatrices\<close>

definition preparedMessage :: "nat \<Rightarrow> nat \<Rightarrow> split \<Rightarrow> string" where
  "preparedMessage nRows nCols sp =
     ''Prepared matrices: X=['' @ showNat nRows @ [CHR 0xD7] @ showNat nCols @ ''], y=['' @
     showNat nRows @ [CHR 0xD7] @ ''1]. Split: train='' @ showNat (length (idxTrain sp)) @
     '', val='' @ showNat (length (idxVal sp)) @ '', test='' @ showNat (length (idxTest sp))"

text \<open>
  \<open>prepareMatrices(scalerType, seed)\<close> on an engine with the bound \<open>maxArgs\<close>. The fields
  are assigned where the code assigns them, so the loader returned with an error is the
  one the throw leaves behind. With rows present, \<open>row.push(...one)\<close> throws in the first
  row for a categorical feature with more categories than the bound; the loop that fits
  the statistics stops at the first column whose \<open>Math.min(...col)\<close> goes beyond the
  bound, with the statistics of the columns before it stored.
\<close>

definition prepareMatricesOn ::
  "nat option \<Rightarrow> loader \<Rightarrow> string \<Rightarrow> jsval \<Rightarrow> loader \<times> (error + string list)" where
  "prepareMatricesOn maxArgs st scalerType seed =
     (let st1 = st\<lparr>ld_encoders := []\<rparr>
      in case ld_schema st1 of
           None \<Rightarrow> (st1, Inl TypeError)
         | Some sch \<Rightarrow>
             (let fs = own_entries (features sch);
                  (enc, featNames) = buildEncoders fs ([], []);
                  st2 = st1\<lparr>ld_encoders := enc\<rparr>
              in case ld_raw st2 of
                   None \<Rightarrow> (st2, Inl TypeError)
                 | Some rows \<Rightarrow>
                     if rows \<noteq> [] \<and>
                        (\<exists>kf \<in> set fs. ftype (snd kf) = Categorical \<and>
                                        tooMany maxArgs (encoderOf enc (fst kf)))
                     then (st2, Inl RangeError)
                     else
                       (let X0 = map (encodeRow enc fs) rows;
                            y = map (\<lambda>r. [Number_of (obj_get r (target sch))]) rows;
                            nRows = length X0;
                            nCols = length (case X0 of [] \<Rightarrow> [] | r0 # _ \<Rightarrow> r0);
                            idxs = numericColIdx enc fs;
                            fitted = takeWhile
                              (\<lambda>c. \<not> tooMany maxArgs (filter isFinite (map (\<lambda>r. getCell r c) X0))) idxs;
                            st3 = st2\<lparr>ld_scalers :=
                                    \<lparr>sc_type = Some scalerType, sc_stats = fitScalers X0 fitted\<rparr>\<rparr>
                        in if fitted \<noteq> idxs then (st3, Inl RangeError)
                           else
                             (let stats = fitScalers X0 idxs;
                                  Xmat = applyScaling scalerType stats idxs X0;
                                  st4 = st3\<lparr>ld_X := Some Xmat, ld_y := Some y\<rparr>;
                                  st5 = st4\<lparr>ld_split := splitIndices nRows seed\<rparr>
                              in if ld_log st5 (preparedMessage nRows nCols (ld_split st5))
                                 then (st5, Inr featNames)
                                 else (st5, Inl Thrown)))))"

text \<open>\<open>prepareMatrices(scalerType, seed)\<close> where no call goes beyond the bound of the engine.\<close>

definition prepareMatrices :: "loader \<Rightarrow> string \<Rightarrow> jsval \<Rightarrow> loader \<times> (error + string list)" where
  "prepareMatrices st scalerType seed = prepareMatricesOn None st scalerType seed"

subsection \<open>Filters\<close>

text \<open>
  One entry of a filter descriptor; a field the entry does not have is \<open>Undefined\<close> or
  \<open>None\<close>. A descriptor maps a feature name to its entry, \<open>None\<close> where it has none.
\<close>

record filterEntry =
  flt_min :: jsval
  flt_max :: jsval
  flt_mode :: "string option"
  flt_set :: "string list option"

type_synonym filters = "string \<Rightarrow> filterEntry option"

text \<open>The test of one feature inside the loop; \<open>False\<close> is \<open>ok = false; break\<close>.\<close>

definition passes :: "filterEntry \<Rightarrow> ftype \<Rightarrow> string option \<Rightarrow> bool" where
  "passes flt t v =
     (case t of
        Numeric \<Rightarrow>
          (let n = toNumberMaybe v
           in if \<not> isFinite n then False
              else if js_lt n (flt_min flt) \<or> js_lt (flt_max flt) n then False
              else True)
      | Boolean \<Rightarrow>
          (if flt_mode flt \<noteq> Some ''any'' \<and> Some (String_of v) \<noteq> flt_mode flt then False else True)
      | Categorical \<Rightarrow>
          (case flt_set flt of
             None \<Rightarrow> True
           | Some vs \<Rightarrow> if 0 < length (remdups vs) \<and> String_of v \<notin> set vs then False else True))"

text \<open>The inner loop over the features for one row.\<close>

fun matchRow :: "filters \<Rightarrow> (string \<times> feature) list \<Rightarrow> row \<Rightarrow> bool" where
  "matchRow flts [] r = True"
| "matchRow flts ((k, f) # fs) r =
     (case flts k of
        None \<Rightarrow> matchRow flts fs r
      | Some flt \<Rightarrow> if passes flt (ftype f) (obj_get r k) then matchRow flts fs r else False)"

text \<open>The outer loop: the indices of the rows that pass, in order.\<close>

definition passingIndices :: "filters \<Rightarrow> (string \<times> feature) list \<Rightarrow> row list \<Rightarrow> nat list" where
  "passingIndices flts fs rows = filter (\<lambda>i. matchRow flts fs (rows ! i)) [0 ..< length rows]"

text \<open>
  \<open>indicesByFilters(readFilterFn)\<close>. The callback gets the schema, \<open>null\<close> included, and
  may throw. With no rows the features are never read.
\<close>

definition indicesByFilters ::
  "loader \<Rightarrow> (schema option \<Rightarrow> error + filters) \<Rightarrow> error + nat list" where
  "indicesByFilters st readFilterFn =
     (case readFilterFn (ld_schema st) of
        Inl e \<Rightarrow> Inl e
      | Inr flts \<Rightarrow>
          (case ld_raw st of
             None \<Rightarrow> Inl TypeError
           | Some rows \<Rightarrow>
               if rows = [] then Inr []
               else (case ld_schema st of
                       None \<Rightarrow> Inl TypeError
                     | Some sch \<Rightarrow> Inr (passingIndices flts (own_entries (features sch)) rows))))"

text \<open>The empty descriptor \<open>{}\<close>, and a descriptor for the example data.\<close>

definition noFilters :: filters where
  "noFilters = (\<lambda>k. None)"

definition lanesFilter :: filterEntry where
  "lanesFilter = \<lparr>flt_min = Fin 2, flt_max = PosInf, flt_mode = None, flt_set = None\<rparr>"

subsection \<open>Views of the prepared matrices\<close>

text \<open>The values that \<open>prepareMatrices\<close> computes on the way, as functions of the schema
  and the rows: the encoder table, the feature names, \<open>X\<close> before and after scaling.\<close>

definition encodersOf :: "schema \<Rightarrow> (string \<times> string list) list" where
  "encodersOf sch = fst (buildEncoders (own_entries (features sch)) ([], []))"

definition featNamesOf :: "schema \<Rightarrow> string list" where
  "featNamesOf sch = snd (buildEncoders (own_entries (features sch)) ([], []))"

definition encodedMatrix :: "schema \<Rightarrow> row list \<Rightarrow> jsval list list" where
  "encodedMatrix sch rows = map (encodeRow (encodersOf sch) (own_entries (features sch))) rows"

definition scaledColumns :: "schema \<Rightarrow> nat list" where
  "scaledColumns sch = numericColIdx (encodersOf sch) (own_entries (features sch))"

definition scaledMatrix :: "string \<Rightarrow> schema \<Rightarrow> row list \<Rightarrow> jsval list list" where
  "scaledMatrix scalerType sch rows =
     applyScaling scalerType (fitScalers (encodedMatrix sch rows) (scaledColumns sch))
       (scaledColumns sch) (encodedMatrix sch rows)"

text \<open>
  The two places where a spread call can go beyond the bound of the engine, as functions
  of the schema and the rows: whether \<open>row.push(...one)\<close> throws, and the columns whose
  statistics are fitted before \<open>Math.min(...col)\<close> throws (all of them if it does not).
\<close>

definition pushFails :: "nat option \<Rightarrow> schema \<Rightarrow> row list \<Rightarrow> bool" where
  "pushFails maxArgs sch rows =
     (rows \<noteq> [] \<and>
      (\<exists>kf \<in> set (own_entries (features sch)).
         ftype (snd kf) = Categorical \<and> tooMany maxArgs (encoderOf (encodersOf sch) (fst kf))))"

definition fittedColumns :: "nat option \<Rightarrow> schema \<Rightarrow> row list \<Rightarrow> nat list" where
  "fittedColumns maxArgs sch rows =
     takeWhile
       (\<lambda>c. \<not> tooMany maxArgs (filter isFinite (map (\<lambda>r. getCell r c) (encodedMatrix sch rows))))
       (scaledColumns sch)"

subsection \<open>The column layout in the words of the specification\<close>

text \<open>
  For each feature in schema iteration order, one column if it is numeric or boolean, and
  as many columns as it has categories if it is categorical.
\<close>

definition featureWidth :: "feature \<Rightarrow> nat" where
  "featureWidth f = (if ftype f = Categorical then length (valuesOf f) else 1)"

definition encodedWidth :: "(string \<times> feature) list \<Rightarrow> nat" where
  "encodedWidth fs = sum_list (map (\<lambda>kf. featureWidth (snd kf)) fs)"

text \<open>The type of the feature that each column comes from.\<close>

definition columnOrigin :: "(string \<times> feature) list \<Rightarrow> ftype list" where
  "columnOrigin fs = concat (map (\<lambda>kf. replicate (featureWidth (snd kf)) (ftype (snd kf))) fs)"

text \<open>
  The finite values of a column, and their statistics in double arithmetic: the mean is
  the sum, added up from the left, over the count; the deviation is the root of the sum
  of the squared differences from the mean over the count less one (over 1 for a single
  value).
\<close>

definition finiteValues :: "jsval list \<Rightarrow> real list" where
  "finiteValues vs = concat (map (\<lambda>v. case v of Fin x \<Rightarrow> [x] | _ \<Rightarrow> []) vs)"

definition colMean :: "real list \<Rightarrow> jsval" where
  "colMean xs = js_div (foldl js_add (Fin 0) (map Fin xs)) (Fin (real (length xs)))"

definition colStd :: "real list \<Rightarrow> jsval" where
  "colStd xs =
     js_sqrt (js_div (foldl (\<lambda>s v. js_add s (js_mul (js_sub v (colMean xs)) (js_sub v (colMean xs))))
                        (Fin 0) (map Fin xs))
                     (Fin (real (max 1 (length xs - 1)))))"

text \<open>
  The shuffle in the words of the specification: a Fisher\<open>\<hyphen>\<close>Yates pass over a list, from
  the last place down to the second, that exchanges the place \<open>i\<close> with the place the
  generator picks for it.
\<close>

fun fisherYates :: "nat \<Rightarrow> jsval \<Rightarrow> 'a list \<Rightarrow> 'a list" where
  "fisherYates 0 s a = a"
| "fisherYates (Suc i) s a =
     (let s' = lcgNext s;
          j = (case pickIndex s' (Suc i) of Fin r \<Rightarrow> nat \<lfloor>r\<rfloor> | _ \<Rightarrow> 0)
      in fisherYates i s' (a[Suc i := a ! j, j := a ! Suc i]))"


text \<open>The schema that \<open>#inferSchema\<close> stores for a row list with a first row and a target.\<close>

definition inferredSchema :: "row list \<Rightarrow> schema" where
  "inferredSchema rows = \<lparr>features = inferFeatures rows targetName, target = targetName\<rparr>"

text \<open>The first column of the \<open>p\<close>-th feature in the layout of the specification.\<close>

definition columnOffset :: "(string \<times> feature) list \<Rightarrow> nat \<Rightarrow> nat" where
  "columnOffset fs p = encodedWidth (take p fs)"


subsection \<open>Example data\<close>

text \<open>Two road segments, the second with no target value.\<close>

definition demoRows :: "row list" where
  "demoRows =
     [[(''road_type'', ''urban''), (''num_lanes'', ''2''), (''accident_risk'', ''0.2'')],
      [(''road_type'', ''rural''), (''num_lanes'', ''1''), (''accident_risk'', [])]]"

definition demoSchema :: schema where
  "demoSchema =
     \<lparr>features =
        [(''road_type'', \<lparr>fname = ''road_type'', ftype = Categorical, fstats = None,
                          fvalues = Some [''urban'', ''rural'']\<rparr>),
         (''num_lanes'', \<lparr>fname = ''num_lanes'', ftype = Numeric, fstats = None,
                          fvalues = None\<rparr>)],
      target = ''accident_risk''\<rparr>"

definition demoLoader :: loader where
  "demoLoader = (newLoader (\<lambda>msg. True))\<lparr>ld_raw := Some demoRows, ld_schema := Some demoSchema\<rparr>"

text \<open>The same two segments as source text; the second line lacks its last cell.\<close>

definition demoText :: string where
  "demoText = ''road_type,num_lanes,accident_risk
urban,2,0.2
rural,1
''"

text \<open>
  The example loader after a first \<open>prepareMatrices\<close>, with a log callback that has
  started to throw.
\<close>

definition preparedLoader :: loader where
  "preparedLoader =
     (fst (prepareMatrices demoLoader ''minmax'' (Fin 2025)))\<lparr>ld_log := (\<lambda>msg. False)\<rparr>"

text \<open>A source text with a column under the name \<open>__proto__\<close>.\<close>

definition protoText :: string where
  "protoText = ''__proto__,accident_risk
x,0.5''"

text \<open>
  The two road segments under a schema that keeps the numeric feature only, in a loader
  that holds a data set prepared with the \<open>minmax\<close> scaler.
\<close>

definition lanesSchema :: schema where
  "lanesSchema =
     \<lparr>features =
        [(''num_lanes'', \<lparr>fname = ''num_lanes'', ftype = Numeric, fstats = None,
                          fvalues = None\<rparr>)],
      target = ''accident_risk''\<rparr>"

definition lanesLoader :: loader where
  "lanesLoader =
     fst (prepareMatrices
            ((newLoader (\<lambda>msg. True))\<lparr>ld_raw := Some demoRows, ld_schema := Some lanesSchema\<rparr>)
            ''minmax'' (Fin 2025))"


text \<open>
  Rows with a truth-valued column written in lower case, under a name that is in neither
  name list, and the same values under the name of a known numeric column.
\<close>

definition flagRows :: "row list" where
  "flagRows =
     [[(''flag'', ''true''), (''accident_risk'', ''0.2'')],
      [(''flag'', ''false''), (''accident_risk'', ''0.8'')]]"

definition lanesRows :: "row list" where
  "lanesRows =
     [[(''num_lanes'', ''true''), (''accident_risk'', ''0.2'')],
      [(''num_lanes'', ''false''), (''accident_risk'', ''0.8'')]]"


definition flagLoader :: loader where
  "flagLoader = (newLoader (\<lambda>msg. True))\<lparr>ld_raw := Some flagRows\<rparr>"

section \<open>Properties\<close>

text \<open>
  The definitions that evaluate the rounding, and those that take \<open>Number\<close> on a literal
  to the real number to be rounded.
\<close>

lemmas dbl_eval = toDouble_def roundAbs_def ulp_def binade_def ilog2_def roundHalfEven_def
  compute_bitlen

lemmas literal_eval = Number_of_def Number_str_def trim_def isWhite_def unsignedDecimal_def
  isDigit_def exponentPart_def natOfDigits_def digitVal_def

subsection \<open>Rounding to a double\<close>

text \<open>
  The facts about the rounding that the properties below rest on: the exponent that
  \<open>ilog2\<close> finds, the error of the rounding, its monotonicity, and the numbers that it
  leaves as they are.
\<close>

lemma bitlen_pos: "0 < x \<Longrightarrow> 1 \<le> bitlen x"
  using bitlen_eq_zero_iff [of x] bitlen_nonneg [of x] by linarith

lemma ilog2_bounds:
  assumes "0 < a"
  shows "2 powi (ilog2 a) \<le> a" and "a < 2 powi (ilog2 a + 1)"
proof -
  have "2 powi (ilog2 a) \<le> a \<and> a < 2 powi (ilog2 a + 1)"
  proof (cases "1 \<le> a")
    case True
    define n where "n = \<lfloor>a\<rfloor>"
    have n: "0 < n"
      using True by (simp add: n_def)
    have b: "1 \<le> bitlen n"
      by (rule bitlen_pos [OF n])
    have e: "ilog2 a = bitlen n - 1"
      using True by (simp add: ilog2_def n_def)
    have lo: "(2::int) ^ nat (bitlen n - 1) \<le> n" and hi: "n < 2 ^ nat (bitlen n)"
      using bitlen_bounds [OF n] by simp_all
    have "2 powi (bitlen n - 1) = (2::real) ^ nat (bitlen n - 1)"
      using b by (simp add: power_int_nonneg_exp)
    also have "\<dots> = of_int (2 ^ nat (bitlen n - 1))"
      by simp
    also have "\<dots> \<le> of_int n"
      using lo by (simp only: of_int_le_iff)
    also have "\<dots> \<le> a"
      by (simp add: n_def)
    finally have 1: "2 powi (ilog2 a) \<le> a"
      by (simp add: e)
    have "n + 1 \<le> 2 ^ nat (bitlen n)"
      using hi by simp
    then have "(of_int (n + 1) :: real) \<le> of_int (2 ^ nat (bitlen n))"
      by (simp only: of_int_le_iff)
    moreover have "a < of_int (n + 1)"
      by (simp add: n_def)
    ultimately have "a < (2::real) ^ nat (bitlen n)"
      by simp
    also have "\<dots> = 2 powi (bitlen n)"
      using b by (simp add: power_int_nonneg_exp)
    finally have 2: "a < 2 powi (ilog2 a + 1)"
      by (simp add: e)
    from 1 2 show ?thesis ..
  next
    case False
    define m where "m = \<lceil>1 / a\<rceil> - 1"
    have inv: "1 < 1 / a"
      using False assms by simp
    then have "1 < \<lceil>1 / a\<rceil>"
      by (simp add: less_ceiling_iff)
    then have m: "0 < m"
      by (simp add: m_def)
    have b: "1 \<le> bitlen m"
      by (rule bitlen_pos [OF m])
    have e: "ilog2 a = - bitlen m"
      using False by (simp add: ilog2_def m_def)
    have lo: "(2::int) ^ nat (bitlen m - 1) \<le> m" and hi: "m < 2 ^ nat (bitlen m)"
      using bitlen_bounds [OF m] by simp_all
    have m1: "of_int m < 1 / a"
      unfolding m_def by linarith
    have m2: "1 / a \<le> of_int (m + 1)"
      unfolding m_def by simp
    have "m + 1 \<le> 2 ^ nat (bitlen m)"
      using hi by simp
    then have "(of_int (m + 1) :: real) \<le> of_int (2 ^ nat (bitlen m))"
      by (simp only: of_int_le_iff)
    with m2 have "1 / a \<le> 2 ^ nat (bitlen m)"
      by simp
    then have "1 / 2 ^ nat (bitlen m) \<le> a"
      using assms by (simp add: field_simps)
    moreover have "2 powi (- bitlen m) = 1 / (2::real) ^ nat (bitlen m)"
      using b by (simp add: power_int_minus_divide power_int_nonneg_exp)
    ultimately have 1: "2 powi (ilog2 a) \<le> a"
      by (simp add: e)
    have "(of_int (2 ^ nat (bitlen m - 1)) :: real) \<le> of_int m"
      using lo by (simp only: of_int_le_iff)
    moreover have "(of_int (2 ^ nat (bitlen m - 1)) :: real) = 2 ^ nat (bitlen m - 1)"
      by simp
    ultimately have "(2::real) ^ nat (bitlen m - 1) < 1 / a"
      using m1 by linarith
    then have "a < 1 / 2 ^ nat (bitlen m - 1)"
      using assms by (simp add: field_simps)
    moreover have "2 powi (- bitlen m + 1) = 1 / (2::real) ^ nat (bitlen m - 1)"
    proof -
      have "- bitlen m + 1 = - (bitlen m - 1)"
        by simp
      then have "2 powi (- bitlen m + 1) = 1 / (2::real) powi (bitlen m - 1)"
        by (simp only: power_int_minus_divide)
      then show ?thesis
        using b by (simp add: power_int_nonneg_exp)
    qed
    ultimately have 2: "a < 2 powi (ilog2 a + 1)"
      by (simp add: e)
    from 1 2 show ?thesis ..
  qed
  then show "2 powi (ilog2 a) \<le> a" and "a < 2 powi (ilog2 a + 1)"
    by simp_all
qed

lemma powi_less_imp:
  assumes "(2::real) powi m < 2 powi n"
  shows "m < n"
proof (rule ccontr)
  assume "\<not> m < n"
  then have "n \<le> m"
    by simp
  then have "(2::real) powi n \<le> 2 powi m"
    by (rule power_int_increasing) simp
  with assms show False
    by simp
qed

lemma ilog2_unique:
  assumes "0 < a" and "2 powi e \<le> a" and "a < 2 powi (e + 1)"
  shows "ilog2 a = e"
proof -
  have "(2::real) powi e < 2 powi (ilog2 a + 1)"
    using assms(2) ilog2_bounds(2) [OF assms(1)] by linarith
  then have "e < ilog2 a + 1"
    by (rule powi_less_imp)
  moreover have "(2::real) powi (ilog2 a) < 2 powi (e + 1)"
    using assms(3) ilog2_bounds(1) [OF assms(1)] by linarith
  then have "ilog2 a < e + 1"
    by (rule powi_less_imp)
  ultimately show ?thesis
    by simp
qed

lemma ilog2_mono:
  assumes "0 < a" and "a \<le> b"
  shows "ilog2 a \<le> ilog2 b"
proof -
  have b: "0 < b"
    using assms by simp
  have "(2::real) powi (ilog2 a) < 2 powi (ilog2 b + 1)"
    using ilog2_bounds(1) [OF assms(1)] ilog2_bounds(2) [OF b] assms(2) by linarith
  then have "ilog2 a < ilog2 b + 1"
    by (rule powi_less_imp)
  then show ?thesis
    by simp
qed

lemma roundHalfEven_of_int: "roundHalfEven (of_int k) = k"
  by (simp add: roundHalfEven_def)

lemma roundHalfEven_error: "\<bar>of_int (roundHalfEven q) - q\<bar> \<le> 1 / 2"
proof -
  have "of_int \<lfloor>q\<rfloor> \<le> q" and "q < of_int \<lfloor>q\<rfloor> + 1"
    by linarith+
  then show ?thesis
    unfolding roundHalfEven_def by (simp split: if_splits)
qed

lemma roundHalfEven_le:
  assumes "q \<le> of_int k"
  shows "roundHalfEven q \<le> k"
proof (cases "q = of_int k")
  case True
  then show ?thesis by (simp add: roundHalfEven_of_int)
next
  case False
  then have "q < of_int k"
    using assms by simp
  then have "\<lfloor>q\<rfloor> < k"
    by (simp add: floor_less_iff)
  then have "\<lfloor>q\<rfloor> + 1 \<le> k"
    by simp
  moreover have "roundHalfEven q \<le> \<lfloor>q\<rfloor> + 1"
    by (simp add: roundHalfEven_def)
  ultimately show ?thesis
    by linarith
qed

lemma roundHalfEven_ge:
  assumes "of_int k \<le> q"
  shows "k \<le> roundHalfEven q"
proof -
  have "k \<le> \<lfloor>q\<rfloor>"
    using assms by (simp add: le_floor_iff)
  moreover have "\<lfloor>q\<rfloor> \<le> roundHalfEven q"
    by (simp add: roundHalfEven_def)
  ultimately show ?thesis
    by linarith
qed

lemma roundHalfEven_mono:
  assumes "p \<le> q"
  shows "roundHalfEven p \<le> roundHalfEven q"
proof (cases "\<lfloor>p\<rfloor> = \<lfloor>q\<rfloor>")
  case True
  show ?thesis
  proof (cases "p - of_int \<lfloor>p\<rfloor> < 1 / 2")
    case True
    then have "roundHalfEven p = \<lfloor>p\<rfloor>"
      by (simp add: roundHalfEven_def)
    moreover have "\<lfloor>q\<rfloor> \<le> roundHalfEven q"
      by (simp add: roundHalfEven_def)
    ultimately show ?thesis
      using \<open>\<lfloor>p\<rfloor> = \<lfloor>q\<rfloor>\<close> by simp
  next
    case False
    show ?thesis
    proof (cases "p = q")
      case True
      then show ?thesis by simp
    next
      case ne: False
      then have "1 / 2 < q - of_int \<lfloor>q\<rfloor>"
        using False assms \<open>\<lfloor>p\<rfloor> = \<lfloor>q\<rfloor>\<close> by simp
      then have "roundHalfEven q = \<lfloor>q\<rfloor> + 1"
        by (simp add: roundHalfEven_def)
      moreover have "roundHalfEven p \<le> \<lfloor>p\<rfloor> + 1"
        by (simp add: roundHalfEven_def)
      ultimately show ?thesis
        using \<open>\<lfloor>p\<rfloor> = \<lfloor>q\<rfloor>\<close> by simp
    qed
  qed
next
  case False
  have "\<lfloor>p\<rfloor> \<le> \<lfloor>q\<rfloor>"
    using assms by (rule floor_mono)
  with False have "\<lfloor>p\<rfloor> + 1 \<le> \<lfloor>q\<rfloor>"
    by simp
  moreover have "roundHalfEven p \<le> \<lfloor>p\<rfloor> + 1"
    by (simp add: roundHalfEven_def)
  moreover have "\<lfloor>q\<rfloor> \<le> roundHalfEven q"
    by (simp add: roundHalfEven_def)
  ultimately show ?thesis
    by linarith
qed


lemma ulp_pos: "0 < ulp a"
  by (simp add: ulp_def)

lemma ulp_top: "2 powi (binade a + 1) = ulp a * 2 ^ 53"
proof -
  have "binade a + 1 = (binade a - 52) + 53"
    by simp
  then have "(2::real) powi (binade a + 1) = 2 powi ((binade a - 52) + 53)"
    by (simp only:)
  also have "\<dots> = 2 powi (binade a - 52) * 2 powi 53"
    by (rule power_int_add) simp
  also have "(2::real) powi 53 = 2 ^ 53"
    by simp
  finally show ?thesis
    by (simp only: ulp_def)
qed

lemma ulp_bot: "2 powi (binade a) = ulp a * 2 ^ 52"
proof -
  have "binade a = (binade a - 52) + 52"
    by simp
  then have "(2::real) powi (binade a) = 2 powi ((binade a - 52) + 52)"
    by (simp only:)
  also have "\<dots> = 2 powi (binade a - 52) * 2 powi 52"
    by (rule power_int_add) simp
  also have "(2::real) powi 52 = 2 ^ 52"
    by simp
  finally show ?thesis
    by (simp only: ulp_def)
qed

lemma roundAbs_zero: "roundAbs 0 = 0"
  by (simp add: roundAbs_def roundHalfEven_def)

lemma roundAbs_error: "\<bar>roundAbs a - a\<bar> \<le> ulp a / 2"
proof -
  have "roundAbs a - a = (of_int (roundHalfEven (a / ulp a)) - a / ulp a) * ulp a"
    using ulp_pos [of a] by (simp add: roundAbs_def field_simps)
  then have "\<bar>roundAbs a - a\<bar> = \<bar>of_int (roundHalfEven (a / ulp a)) - a / ulp a\<bar> * ulp a"
    using ulp_pos [of a] by (simp add: abs_mult)
  also have "\<dots> \<le> (1 / 2) * ulp a"
    using ulp_pos [of a] by (intro mult_right_mono roundHalfEven_error) simp
  finally show ?thesis
    by simp
qed

lemma roundAbs_nonneg:
  assumes "0 \<le> a"
  shows "0 \<le> roundAbs a"
proof -
  have "of_int 0 \<le> a / ulp a"
    using assms ulp_pos [of a] by simp
  then have "0 \<le> roundHalfEven (a / ulp a)"
    by (rule roundHalfEven_ge)
  then show ?thesis
    using ulp_pos [of a] by (simp add: roundAbs_def)
qed

lemma roundAbs_le_top:
  assumes "0 < a"
  shows "roundAbs a \<le> 2 powi (binade a + 1)"
proof -
  have "ilog2 a + 1 \<le> binade a + 1"
    by (simp add: binade_def)
  then have "(2::real) powi (ilog2 a + 1) \<le> 2 powi (binade a + 1)"
    by (rule power_int_increasing) simp
  then have "a \<le> 2 powi (binade a + 1)"
    using ilog2_bounds(2) [OF assms] by linarith
  then have "a \<le> ulp a * 2 ^ 53"
    by (simp only: ulp_top)
  then have "a / ulp a \<le> of_int (2 ^ 53)"
    using ulp_pos [of a] by (simp add: field_simps)
  then have "roundHalfEven (a / ulp a) \<le> 2 ^ 53"
    by (rule roundHalfEven_le)
  then have "(of_int (roundHalfEven (a / ulp a)) :: real) \<le> of_int (2 ^ 53)"
    by (simp only: of_int_le_iff)
  then have "of_int (roundHalfEven (a / ulp a)) * ulp a \<le> of_int (2 ^ 53) * ulp a"
    using ulp_pos [of a] by (intro mult_right_mono) simp_all
  also have "of_int (2 ^ 53) * ulp a = ulp a * 2 ^ 53"
    by simp
  finally show ?thesis
    by (simp only: roundAbs_def ulp_top)
qed

lemma roundAbs_ge_bot:
  assumes "0 < a" and "- 1022 \<le> ilog2 a"
  shows "2 powi (ilog2 a) \<le> roundAbs a"
proof -
  have b: "binade a = ilog2 a"
    using assms(2) by (simp add: binade_def)
  have "2 powi (binade a) \<le> a"
    using ilog2_bounds(1) [OF assms(1)] by (simp only: b)
  then have "ulp a * 2 ^ 52 \<le> a"
    by (simp only: ulp_bot)
  then have "of_int (2 ^ 52) \<le> a / ulp a"
    using ulp_pos [of a] by (simp add: field_simps)
  then have "2 ^ 52 \<le> roundHalfEven (a / ulp a)"
    by (rule roundHalfEven_ge)
  then have "(of_int (2 ^ 52) :: real) \<le> of_int (roundHalfEven (a / ulp a))"
    by (simp only: of_int_le_iff)
  then have "of_int (2 ^ 52) * ulp a \<le> of_int (roundHalfEven (a / ulp a)) * ulp a"
    using ulp_pos [of a] by (intro mult_right_mono) simp_all
  moreover have "of_int (2 ^ 52) * ulp a = ulp a * 2 ^ 52"
    by simp
  ultimately have "ulp a * 2 ^ 52 \<le> roundAbs a"
    by (simp only: roundAbs_def)
  then have "2 powi (binade a) \<le> roundAbs a"
    by (simp only: ulp_bot)
  then show ?thesis
    by (simp only: b)
qed

lemma binade_mono:
  assumes "0 < a" and "a \<le> b"
  shows "binade a \<le> binade b"
  using ilog2_mono [OF assms] by (simp add: binade_def)

lemma roundAbs_mono:
  assumes "0 \<le> a" and "a \<le> b"
  shows "roundAbs a \<le> roundAbs b"
proof (cases "a = 0")
  case True
  then show ?thesis
    using roundAbs_nonneg [of b] assms by (simp add: roundAbs_zero)
next
  case False
  then have a: "0 < a" and b: "0 < b"
    using assms by simp_all
  show ?thesis
  proof (cases "binade a = binade b")
    case True
    then have u: "ulp a = ulp b"
      by (simp add: ulp_def)
    have "a / ulp b \<le> b / ulp b"
      using assms(2) ulp_pos [of b] by (simp add: divide_right_mono)
    then have "roundHalfEven (a / ulp b) \<le> roundHalfEven (b / ulp b)"
      by (rule roundHalfEven_mono)
    then have "(of_int (roundHalfEven (a / ulp b)) :: real) \<le> of_int (roundHalfEven (b / ulp b))"
      by (simp only: of_int_le_iff)
    then show ?thesis
      using ulp_pos [of b] by (simp add: roundAbs_def u)
  next
    case False
    then have lt: "binade a < binade b"
      using binade_mono [OF a assms(2)] by simp
    then have e: "binade b = ilog2 b" and n: "- 1022 \<le> ilog2 b"
      by (simp_all add: binade_def max_def split: if_splits)
    have "roundAbs a \<le> 2 powi (binade a + 1)"
      by (rule roundAbs_le_top [OF a])
    also have "\<dots> \<le> 2 powi (ilog2 b)"
      using lt e by (intro power_int_increasing) simp_all
    also have "\<dots> \<le> roundAbs b"
      by (rule roundAbs_ge_bot [OF b n])
    finally show ?thesis .
  qed
qed

lemma normal_ilog2:
  assumes "2 powi (- 1022) \<le> a"
  shows "- 1022 \<le> ilog2 a"
proof -
  have "(0::real) < 2 powi (- 1022)"
    by (rule zero_less_power_int) simp
  then have a: "0 < a"
    using assms by linarith
  have "(2::real) powi (- 1022) < 2 powi (ilog2 a + 1)"
    using assms ilog2_bounds(2) [OF a] by linarith
  then have "- 1022 < ilog2 a + 1"
    by (rule powi_less_imp)
  then show ?thesis
    by simp
qed

lemma roundAbs_upper:
  assumes "2 powi (- 1022) \<le> a"
  shows "roundAbs a \<le> a * (1 + 1 / 2 ^ 53)"
proof -
  have "(0::real) < 2 powi (- 1022)"
    by (rule zero_less_power_int) simp
  then have a: "0 < a"
    using assms by linarith
  have b: "binade a = ilog2 a"
    using normal_ilog2 [OF assms] by (simp add: binade_def)
  have "2 powi (binade a) \<le> a"
    using ilog2_bounds(1) [OF a] by (simp only: b)
  then have "ulp a * 2 ^ 52 \<le> a"
    by (simp only: ulp_bot)
  then have "ulp a / 2 \<le> a / 2 ^ 53"
    by (simp add: field_simps)
  moreover have "roundAbs a - a \<le> ulp a / 2"
    using roundAbs_error [of a] by linarith
  ultimately show ?thesis
    by (simp add: field_simps)
qed

lemma toDouble_nonneg:
  assumes "0 \<le> x" and "roundAbs x < 2 ^ 1024"
  shows "toDouble x = Fin (roundAbs x)"
proof (cases "x = 0")
  case True
  then show ?thesis
    by (simp add: toDouble_def roundAbs_zero)
next
  case False
  then show ?thesis
    using assms by (simp add: toDouble_def)
qed


lemma powi_le_imp:
  assumes "(2::real) powi m \<le> 2 powi n"
  shows "m \<le> n"
proof (rule ccontr)
  assume "\<not> m \<le> n"
  then have "n < m"
    by simp
  then have "(2::real) powi n < 2 powi m"
    by (rule power_int_strict_increasing) simp
  with assms show False
    by simp
qed

lemma ilog2_ge:
  assumes "2 powi e \<le> a"
  shows "e \<le> ilog2 a"
proof -
  have "(0::real) < 2 powi e"
    by (rule zero_less_power_int) simp
  then have a: "0 < a"
    using assms by linarith
  have "(2::real) powi e < 2 powi (ilog2 a + 1)"
    using assms ilog2_bounds(2) [OF a] by linarith
  then have "e < ilog2 a + 1"
    by (rule powi_less_imp)
  then show ?thesis
    by simp
qed

lemma roundAbs_exact:
  assumes "a / ulp a = of_int m"
  shows "roundAbs a = a"
proof -
  have "roundAbs a = of_int m * ulp a"
    by (simp add: roundAbs_def assms roundHalfEven_of_int)
  also have "\<dots> = a / ulp a * ulp a"
    by (simp only: assms)
  also have "\<dots> = a"
    using ulp_pos [of a] by simp
  finally show ?thesis .
qed

lemma roundAbs_of_int:
  assumes "0 \<le> k" and "k \<le> 2 ^ 53"
  shows "roundAbs (of_int k) = of_int k"
proof (cases "k = 0")
  case True
  then show ?thesis
    by (simp add: roundAbs_zero)
next
  case False
  define a :: real where "a = of_int k"
  define e where "e = ilog2 a"
  have k1: "1 \<le> k"
    using False assms(1) by simp
  then have a1: "1 \<le> a"
    by (simp add: a_def)
  then have a0: "0 < a"
    by simp
  have "(2::real) powi 0 \<le> a"
    using a1 by simp
  then have e0: "0 \<le> e"
    unfolding e_def by (rule ilog2_ge)
  have b: "binade a = e"
    using e0 by (simp add: binade_def e_def)
  have a53: "a \<le> 2 powi 53"
  proof -
    have "(of_int k :: real) \<le> of_int (2 ^ 53)"
      using assms(2) by (simp only: of_int_le_iff)
    then show ?thesis
      by (simp add: a_def)
  qed
  have "(2::real) powi e \<le> 2 powi 53"
    using ilog2_bounds(1) [OF a0] a53 unfolding e_def by linarith
  then have e53: "e \<le> 53"
    by (rule powi_le_imp)
  have "\<exists>m::int. a / ulp a = of_int m"
  proof (cases "e \<le> 52")
    case True
    have "(1::real) = 2 powi ((e - 52) + (52 - e))"
      by simp
    also have "\<dots> = 2 powi (e - 52) * 2 powi (52 - e)"
      by (rule power_int_add) simp
    also have "(2::real) powi (52 - e) = 2 ^ nat (52 - e)"
      using True by (simp add: power_int_nonneg_exp)
    finally have "1 / ulp a = 2 ^ nat (52 - e)"
      using ulp_pos [of a] by (simp add: ulp_def b field_simps)
    then have "a * (1 / ulp a) = a * 2 ^ nat (52 - e)"
      by (simp only:)
    then have "a / ulp a = a * 2 ^ nat (52 - e)"
      by simp
    also have "\<dots> = of_int (k * 2 ^ nat (52 - e))"
      by (simp add: a_def)
    finally show ?thesis ..
  next
    case False
    then have e: "e = 53"
      using e53 by simp
    have "(2::real) powi 53 \<le> a"
      using ilog2_bounds(1) [OF a0] by (simp add: e_def [symmetric] e)
    then have a: "a = 2 ^ 53"
      using a53 by simp
    have "ulp a = 2"
      by (simp add: ulp_def b e)
    then have "a / ulp a = of_int (2 ^ 52)"
      by (simp add: a)
    then show ?thesis ..
  qed
  then obtain m :: int where "a / ulp a = of_int m" ..
  then have "roundAbs a = a"
    by (rule roundAbs_exact)
  then show ?thesis
    by (simp only: a_def)
qed

lemma roundAbs_grid:
  assumes "2 ^ 30 \<le> a"
  shows "\<exists>m::int. roundAbs a = of_int m / 2 ^ 22"
proof -
  define e where "e = ilog2 a"
  have "(2::real) powi 30 \<le> a"
    using assms by simp
  then have e30: "30 \<le> e"
    unfolding e_def by (rule ilog2_ge)
  have b: "binade a = e"
    using e30 by (simp add: binade_def e_def)
  have "e - 52 = (e - 30) + (- 22)"
    by simp
  then have "(2::real) powi (e - 52) = 2 powi ((e - 30) + (- 22))"
    by (simp only:)
  also have "\<dots> = 2 powi (e - 30) * 2 powi (- 22)"
    by (rule power_int_add) simp
  also have "(2::real) powi (e - 30) = 2 ^ nat (e - 30)"
    using e30 by (simp add: power_int_nonneg_exp)
  also have "(2::real) powi (- 22) = 1 / 2 ^ 22"
    by (simp add: power_int_minus_divide)
  finally have u: "ulp a = 2 ^ nat (e - 30) * (1 / 2 ^ 22)"
    by (simp only: ulp_def b)
  have "roundAbs a = of_int (roundHalfEven (a / ulp a) * 2 ^ nat (e - 30)) / 2 ^ 22"
    unfolding roundAbs_def by (subst (2) u) simp
  then show ?thesis ..
qed

lemma toDouble_zero: "toDouble 0 = Fin 0"
  by (simp add: toDouble_def roundAbs_zero)

lemma toDouble_of_int:
  assumes "\<bar>k\<bar> \<le> 2 ^ 53"
  shows "toDouble (of_int k) = Fin (of_int k)"
proof -
  have r: "roundAbs \<bar>of_int k\<bar> = \<bar>of_int k\<bar>"
    using roundAbs_of_int [of "\<bar>k\<bar>"] assms by simp
  have "(of_int \<bar>k\<bar> :: real) \<le> of_int (2 ^ 53)"
    using assms by (simp only: of_int_le_iff)
  then have "\<bar>of_int k :: real\<bar> < 2 ^ 1024"
    by simp
  then show ?thesis
    using mult_sgn_abs [of "of_int k :: real"] by (simp add: toDouble_def r)
qed

subsection \<open>Parsing the empty text\<close>

lemma parseCSV_Nil: "parseCSV [] = []"
  by (simp add: parseCSV_def csvLines_def trim_def)

text \<open>
  C7 as the specification states it: the parser raises on the empty text instead of
  returning a row list. The parser has no \<open>throw\<close>; on the empty text the split gives the
  one empty line, which is taken as the header, and the result is the empty row list.
\<close>

theorem parseCSV_empty_text_returns_no_rows: "parseCSV [] = []"
  by (rule parseCSV_Nil)

text \<open>
  C7, amended: on the empty text the parser returns the empty row list; the failure comes
  from the next step of \<open>loadCSV\<close>, schema inference, which finds no first row and throws
  the \<open>Error\<close> saying that the target column was not found. The loader keeps the empty
  row list and is otherwise unchanged.
\<close>

theorem empty_text_fails_in_inferSchema:
  "parseCSV [] = [] \<and>
   inferSchema (st\<lparr>ld_raw := Some (parseCSV [])\<rparr>) = (st\<lparr>ld_raw := Some []\<rparr>, Inl targetMissing)"
  by (simp add: parseCSV_Nil inferSchema_def inferSchemaOn_def)

theorem empty_text_fails_in_inferSchema_witness:
  "parseCSV [] = [] \<and>
   inferSchema ((newLoader (\<lambda>msg. True))\<lparr>ld_raw := Some (parseCSV [])\<rparr>) =
     ((newLoader (\<lambda>msg. True))\<lparr>ld_raw := Some []\<rparr>, Inl targetMissing)"
  by (rule empty_text_fails_in_inferSchema)

subsection \<open>prepareMatrices on a loaded data set\<close>

text \<open>
  With a schema and rows present, and no call beyond the bound of the engine, the method
  assigns all five fields and then calls the log.
\<close>

lemma prepareMatrices_loaded:
  assumes "ld_schema st = Some sch" and "ld_raw st = Some rows"
  shows "prepareMatrices st scalerType seed =
     (st\<lparr>ld_encoders := encodersOf sch,
         ld_scalers := \<lparr>sc_type = Some scalerType,
                        sc_stats = fitScalers (encodedMatrix sch rows) (scaledColumns sch)\<rparr>,
         ld_X := Some (scaledMatrix scalerType sch rows),
         ld_y := Some (map (\<lambda>r. [Number_of (obj_get r (target sch))]) rows),
         ld_split := splitIndices (length rows) seed\<rparr>,
      if ld_log st (preparedMessage (length rows)
                      (length (case encodedMatrix sch rows of [] \<Rightarrow> [] | r0 # _ \<Rightarrow> r0))
                      (splitIndices (length rows) seed))
      then Inr (featNamesOf sch) else Inl Thrown)"
proof -
  have tw: "takeWhile (\<lambda>c. True) xs = xs" for xs :: "nat list"
    by simp
  show ?thesis
    using assms
    by (simp add: prepareMatrices_def prepareMatricesOn_def tooMany_def tw Let_def scaledMatrix_def
        encodedMatrix_def scaledColumns_def encodersOf_def featNamesOf_def split: prod.splits)
qed

lemma prepareMatrices_state:
  assumes "ld_schema st = Some sch" and "ld_raw st = Some rows"
  shows "fst (prepareMatrices st scalerType seed) =
     st\<lparr>ld_encoders := encodersOf sch,
        ld_scalers := \<lparr>sc_type = Some scalerType,
                       sc_stats = fitScalers (encodedMatrix sch rows) (scaledColumns sch)\<rparr>,
        ld_X := Some (scaledMatrix scalerType sch rows),
        ld_y := Some (map (\<lambda>r. [Number_of (obj_get r (target sch))]) rows),
        ld_split := splitIndices (length rows) seed\<rparr>"
  by (simp add: prepareMatrices_loaded [OF assms])

subsection \<open>The target vector\<close>

lemma prepareMatrices_y:
  assumes "ld_schema st = Some sch" and "ld_raw st = Some rows"
  shows "ld_y (fst (prepareMatrices st scalerType seed)) =
           Some (map (\<lambda>r. [Number_of (obj_get r (target sch))]) rows)"
  by (simp add: prepareMatrices_state [OF assms])

lemma Number_of_empty_string: "Number_of (Some []) = Fin 0"
  by (simp add: Number_of_def Number_str_def trim_def)

text \<open>
  C9 at the row whose target cell is the empty string: the target is read with the bare
  \<open>Number(...)\<close>, and \<open>Number('')\<close> is \<open>0\<close>, so the entry of \<open>y\<close> is \<open>0\<close> where the claim
  says \<open>NaN\<close>. The features of the same row go through \<open>#toNumberMaybe\<close>, which maps the
  empty string to \<open>NaN\<close>. The entry of the other row is the double nearest to \<open>0.2\<close>.
\<close>

theorem empty_target_gives_zero:
  "ld_y (fst (prepareMatrices demoLoader ''minmax'' (Fin 2025))) =
     Some [[Fin (3602879701896397 / 18014398509481984)], [Fin 0]] \<and>
   toNumberMaybe (Some []) = NaN"
proof -
  have s: "ld_schema demoLoader = Some demoSchema" and r: "ld_raw demoLoader = Some demoRows"
    by (simp_all add: demoLoader_def newLoader_def)
  have "Number_of (Some ''0.2'') = toDouble (1 / 5)"
    by (simp add: literal_eval)
  also have "\<dots> = Fin (3602879701896397 / 18014398509481984)"
    by (simp add: dbl_eval)
  finally have n: "Number_of (Some ''0.2'') = Fin (3602879701896397 / 18014398509481984)" .
  show ?thesis
    by (simp add: prepareMatrices_y [OF s r] demoSchema_def demoRows_def obj_get_def n
        Number_of_empty_string toNumberMaybe_def)
qed


subsection \<open>Objects keep their keys unique\<close>

lemma map_of_obj_put: "map_of (obj_put ps k v) = (map_of ps)(k \<mapsto> v)"
  by (induction ps k v rule: obj_put.induct) auto

lemma keys_obj_put: "fst ` set (obj_put ps k v) = insert k (fst ` set ps)"
  by (simp add: dom_map_of_conv_image_fst [symmetric] map_of_obj_put)

lemma distinct_obj_put: "distinct (map fst ps) \<Longrightarrow> distinct (map fst (obj_put ps k v))"
  by (induction ps k v rule: obj_put.induct) (auto simp: keys_obj_put)

lemma obj_put_fresh: "k \<notin> fst ` set ps \<Longrightarrow> obj_put ps k v = ps @ [(k, v)]"
  by (induction ps k v rule: obj_put.induct) auto

subsection \<open>The parser\<close>

lemma splitLines_nonempty: "splitLines s \<noteq> []"
  by (induction s rule: splitLines.induct) (auto split: list.splits elim: consHead.elims)

lemma fold_put_keys:
  "fst ` set (fold (\<lambda>(h, i) obj. obj_put obj h (g i)) hs acc) = fst ` set acc \<union> fst ` set hs"
  by (induction hs arbitrary: acc) (simp_all add: keys_obj_put case_prod_beta)

lemma fold_put_distinct:
  "distinct (map fst acc) \<Longrightarrow> distinct (map fst (fold (\<lambda>(h, i) obj. obj_put obj h (g i)) hs acc))"
  by (induction hs arbitrary: acc) (auto simp: distinct_obj_put)

lemma fold_put_fresh:
  "distinct (map fst hs) \<Longrightarrow> fst ` set hs \<inter> fst ` set acc = {} \<Longrightarrow>
   fold (\<lambda>(h, i) obj. obj_put obj h (g i)) hs acc = acc @ map (\<lambda>(h, i). (h, g i)) hs"
proof (induction hs arbitrary: acc)
  case Nil
  then show ?case by simp
next
  case (Cons p hs)
  obtain h i where p: "p = (h, i)" by (cases p)
  from Cons.prems have fresh: "h \<notin> fst ` set acc" and d: "distinct (map fst hs)"
    and rest: "fst ` set hs \<inter> fst ` set (acc @ [(h, g i)]) = {}"
    by (auto simp: p)
  show ?case
    using Cons.IH [OF d rest] by (simp add: p obj_put_fresh [OF fresh])
qed

text \<open>The row is built from the header names other than \<open>__proto__\<close>.\<close>

lemma fold_row_put:
  "fold (\<lambda>(h, i) obj. row_put obj h (g i)) hs acc =
   fold (\<lambda>(h, i) obj. obj_put obj h (g i)) (filter (\<lambda>p. fst p \<noteq> ''__proto__'') hs) acc"
  by (induction hs arbitrary: acc) (simp_all add: row_put_def case_prod_beta)

lemma mkRow_keys: "fst ` set (mkRow hs cells) = set hs - {''__proto__''}"
proof -
  have "map fst (zip hs [0 ..< length hs]) = hs"
    by simp
  then have "set (map fst (zip hs [0 ..< length hs])) = set hs"
    by (simp only:)
  then have z: "fst ` set (zip hs [0 ..< length hs]) = set hs"
    by (simp only: set_map)
  have "fst ` set (filter (\<lambda>p. fst p \<noteq> ''__proto__'') (zip hs [0 ..< length hs])) =
      fst ` set (zip hs [0 ..< length hs]) - {''__proto__''}"
    by auto
  then show ?thesis
    unfolding mkRow_def fold_row_put fold_put_keys z by simp
qed

lemma mkRow_distinct_keys: "distinct (map fst (mkRow hs cells))"
  by (simp add: mkRow_def fold_row_put fold_put_distinct)

lemma mkRow_distinct:
  assumes "distinct hs" and "''__proto__'' \<notin> set hs"
  shows "mkRow hs cells = zip hs (map (cellOr cells) [0 ..< length hs])"
proof -
  have "fst p \<noteq> ''__proto__''" if "p \<in> set (zip hs [0 ..< length hs])" for p
    using that assms(2) by (metis prod.collapse set_zip_leftD)
  then have f: "filter (\<lambda>p. fst p \<noteq> ''__proto__'') (zip hs [0 ..< length hs]) = zip hs [0 ..< length hs]"
    by (simp add: filter_id_conv)
  have "distinct (map fst (zip hs [0 ..< length hs]))"
    using assms(1) by simp
  then have "mkRow hs cells = map (\<lambda>(h, i). (h, cellOr cells i)) (zip hs [0 ..< length hs])"
    unfolding mkRow_def fold_row_put f by (subst fold_put_fresh) simp_all
  also have "\<dots> = zip hs (map (cellOr cells) [0 ..< length hs])"
    by (simp add: zip_map2)
  finally show ?thesis .
qed

lemma mkRow_get:
  assumes "distinct hs" and "''__proto__'' \<notin> set hs" and "i < length hs"
  shows "obj_get (mkRow hs cells) (hs ! i) = Some (cellOr cells i)"
proof -
  have "map_of (zip hs (map (cellOr cells) [0 ..< length hs])) (hs ! i)
          = Some (map (cellOr cells) [0 ..< length hs] ! i)"
    using assms(1,3) by (intro map_of_zip_nth) simp_all
  then show ?thesis
    using assms by (simp add: obj_get_def mkRow_distinct)
qed

lemma parseCSV_unfold:
  "parseCSV text = map (\<lambda>line. mkRow (csvHeaders text) (csvCells line)) (tl (csvLines text))"
  using splitLines_nonempty [of "trim text"]
  by (cases "splitLines (trim text)") (simp_all add: parseCSV_def csvHeaders_def csvLines_def)

text \<open>
  C8: the parser returns one row per line after the header, the lines being those of the
  trimmed text. The keys of every row are the header's column names other than
  \<open>__proto__\<close>, which never becomes a key. For a header whose names are distinct and are
  not \<open>__proto__\<close>, that is the header of a valid text, the keys of each row are exactly
  the header's column set, in header order, and the cell of column \<open>i\<close> is the \<open>i\<close>-th cell
  of the line, or the empty string when the line has no such cell.
\<close>

theorem parseCSV_rows_align:
  "length (parseCSV text) = length (csvLines text) - 1 \<and>
   (\<forall>r \<in> set (parseCSV text).
      fst ` set r = set (csvHeaders text) - {''__proto__''} \<and> distinct (map fst r)) \<and>
   (distinct (csvHeaders text) \<and> ''__proto__'' \<notin> set (csvHeaders text) \<longrightarrow>
      (\<forall>n < length (parseCSV text).
         fst ` set (parseCSV text ! n) = set (csvHeaders text) \<and>
         map fst (parseCSV text ! n) = csvHeaders text \<and>
         (\<forall>i < length (csvHeaders text).
            obj_get (parseCSV text ! n) (csvHeaders text ! i) =
              Some (if i < length (csvCells (csvLines text ! Suc n))
                    then csvCells (csvLines text ! Suc n) ! i else []))))"
proof (intro conjI ballI impI allI)
  show "length (parseCSV text) = length (csvLines text) - 1"
    by (simp add: parseCSV_unfold)
next
  fix r assume "r \<in> set (parseCSV text)"
  then obtain line where "r = mkRow (csvHeaders text) (csvCells line)"
    by (auto simp: parseCSV_unfold)
  then show "fst ` set r = set (csvHeaders text) - {''__proto__''}" and "distinct (map fst r)"
    by (simp_all add: mkRow_keys mkRow_distinct_keys)
next
  fix n
  assume v: "distinct (csvHeaders text) \<and> ''__proto__'' \<notin> set (csvHeaders text)"
    and n: "n < length (parseCSV text)"
  from v have d: "distinct (csvHeaders text)" and p: "''__proto__'' \<notin> set (csvHeaders text)"
    by simp_all
  from n have row: "parseCSV text ! n = mkRow (csvHeaders text) (csvCells (csvLines text ! Suc n))"
    by (simp add: parseCSV_unfold nth_tl)
  show "fst ` set (parseCSV text ! n) = set (csvHeaders text)"
    using p by (simp add: row mkRow_keys)
  show "map fst (parseCSV text ! n) = csvHeaders text"
    by (simp add: row mkRow_distinct [OF d p])
  fix i
  assume i: "i < length (csvHeaders text)"
  show "obj_get (parseCSV text ! n) (csvHeaders text ! i) =
          Some (if i < length (csvCells (csvLines text ! Suc n))
                then csvCells (csvLines text ! Suc n) ! i else [])"
    using mkRow_get [OF d p i] by (simp add: row cellOr_def)
qed

lemma demoText_lines: "csvLines demoText = [''road_type,num_lanes,accident_risk'', ''urban,2,0.2'', ''rural,1'']"
  by code_simp

lemma demoText_headers: "csvHeaders demoText = [''road_type'', ''num_lanes'', ''accident_risk'']"
  by code_simp

lemma demoText_rows: "parseCSV demoText = demoRows"
  by code_simp

text \<open>The row of a text with a column \<open>__proto__\<close> lacks that key.\<close>

lemma protoText_rows:
  "csvHeaders protoText = [''__proto__'', ''accident_risk''] \<and>
   parseCSV protoText = [[(''accident_risk'', ''0.5'')]]"
  by code_simp

theorem parseCSV_rows_align_witness:
  "length (parseCSV demoText) = 2 \<and> length (csvLines demoText) = 3 \<and>
   distinct (csvHeaders demoText) \<and> ''__proto__'' \<notin> set (csvHeaders demoText) \<and>
   map fst (parseCSV demoText ! 1) = [''road_type'', ''num_lanes'', ''accident_risk''] \<and>
   obj_get (parseCSV demoText ! 1) ''accident_risk'' = Some [] \<and>
   obj_get (parseCSV demoText ! 1) ''num_lanes'' = Some ''1'' \<and>
   fst ` set (parseCSV protoText ! 0) = set (csvHeaders protoText) - {''__proto__''}"
  using parseCSV_rows_align [of demoText] parseCSV_rows_align [of protoText]
  by (simp add: demoText_lines demoText_headers demoText_rows demoRows_def obj_get_def
      protoText_rows)


subsection \<open>The shuffle, for a seed that is not negative\<close>

text \<open>
  From a state that is not negative the generator stays between 0 and the modulus, the
  picked index stays between 0 and the loop index, and the loop is a Fisher-Yates
  pass on the elements of the array.
\<close>

lemma rem_range:
  fixes p m :: real
  assumes "0 < m"
  shows "0 \<le> p - m * of_int \<lfloor>p / m\<rfloor>" and "p - m * of_int \<lfloor>p / m\<rfloor> < m"
proof -
  have "of_int \<lfloor>p / m\<rfloor> * m \<le> p"
    unfolding pos_le_divide_eq [OF assms, symmetric] by (rule of_int_floor_le)
  then show "0 \<le> p - m * of_int \<lfloor>p / m\<rfloor>"
    by (simp add: mult.commute)
  have "p < (of_int \<lfloor>p / m\<rfloor> + 1) * m"
    unfolding pos_divide_less_eq [OF assms, symmetric] by linarith
  then show "p - m * of_int \<lfloor>p / m\<rfloor> < m"
    by (simp add: algebra_simps)
qed

lemma roundAbs_two_30: "roundAbs (2 ^ 30) = 2 ^ 30"
  by (simp add: dbl_eval)

lemma roundAbs_two_46: "roundAbs (2 ^ 46) = 2 ^ 46"
  by (simp add: dbl_eval)

lemma roundAbs_below_one: "roundAbs (1 - 1 / 2 ^ 53) = 1 - 1 / 2 ^ 53"
  by (simp add: dbl_eval)

text \<open>The next state of the generator, from a state that is not negative.\<close>

lemma lcgNext_range:
  assumes "0 \<le> x" and "roundAbs (x * 16807) < 2 ^ 1024"
  shows "\<exists>y. lcgNext (Fin x) = Fin y \<and> 0 \<le> y \<and> y \<le> 2147483647 - 1 / 2 ^ 22"
proof -
  define p where "p = roundAbs (x * 16807)"
  define y where "y = p - 2147483647 * of_int \<lfloor>p / 2147483647\<rfloor>"
  have x0: "0 \<le> x * 16807"
    using assms(1) by simp
  have p0: "0 \<le> p"
    unfolding p_def by (rule roundAbs_nonneg [OF x0])
  have m: "toDouble (x * 16807) = Fin p"
    using toDouble_nonneg [OF x0 assms(2)] by (simp add: p_def)
  have y0: "0 \<le> y" and yM: "y < 2147483647"
    unfolding y_def by (rule rem_range, simp)+
  have n: "lcgNext (Fin x) = Fin y"
  proof (cases "p = 0")
    case True
    then show ?thesis
      by (simp add: lcgNext_def m y_def)
  next
    case False
    then have "0 < p"
      using p0 by simp
    then show ?thesis
      by (simp add: lcgNext_def m y_def)
  qed
  have "y \<le> 2147483647 - 1 / 2 ^ 22"
  proof (cases "x * 16807 \<le> 2 ^ 30")
    case True
    have "p \<le> roundAbs (2 ^ 30)"
      unfolding p_def by (rule roundAbs_mono [OF x0 True])
    then have p30: "p \<le> 2 ^ 30"
      by (simp only: roundAbs_two_30)
    then have "p / 2147483647 < 1"
      by simp
    moreover have "0 \<le> p / 2147483647"
      using p0 by simp
    ultimately have "\<lfloor>p / 2147483647\<rfloor> = 0"
      by (simp add: floor_eq_iff)
    then have "y = p"
      by (simp add: y_def)
    then show ?thesis
      using p30 by simp
  next
    case False
    then have "2 ^ 30 \<le> x * 16807"
      by simp
    from roundAbs_grid [OF this] obtain k :: int where k: "p = of_int k / 2 ^ 22"
      unfolding p_def ..
    define k' where "k' = k - 2147483647 * 2 ^ 22 * \<lfloor>p / 2147483647\<rfloor>"
    have yk: "y = of_int k' / 2 ^ 22"
      by (simp add: y_def k'_def k field_simps)
    then have "of_int k' < (2147483647 * 2 ^ 22 :: real)"
      using yM by (simp add: field_simps)
    then have "(of_int k' :: real) < of_int (2147483647 * 2 ^ 22)"
      by simp
    then have "k' < 2147483647 * 2 ^ 22"
      by (simp only: of_int_less_iff)
    then have "k' \<le> 2147483647 * 2 ^ 22 - 1"
      by simp
    then have "(of_int k' :: real) \<le> of_int (2147483647 * 2 ^ 22 - 1)"
      by (simp only: of_int_le_iff)
    then show ?thesis
      by (simp add: yk field_simps)
  qed
  with n y0 show ?thesis
    by blast
qed

lemma state_stays_finite:
  assumes "0 \<le> y" and "y \<le> 2147483647 - 1 / 2 ^ 22"
  shows "roundAbs (y * 16807) < 2 ^ 1024"
proof -
  have "y * 16807 \<le> 2 ^ 46"
    using assms by simp
  moreover have "0 \<le> y * 16807"
    using assms(1) by simp
  ultimately have "roundAbs (y * 16807) \<le> roundAbs (2 ^ 46)"
    by (intro roundAbs_mono)
  then have "roundAbs (y * 16807) \<le> 2 ^ 46"
    by (simp only: roundAbs_two_46)
  also have "(2::real) ^ 46 < 2 ^ 1024"
    by simp
  finally show ?thesis .
qed


text \<open>The picked index lies between 0 and the loop index.\<close>

lemma pickIndex_range:
  assumes "0 \<le> y" and "y \<le> 2147483647 - 1 / 2 ^ 22" and "real i + 1 \<le> 2 ^ 32"
  shows "\<exists>j::nat. pickIndex (Fin y) i = Fin (real j) \<and> j \<le> i"
proof -
  define c :: real where "c = 1 - 1 / 2 ^ 53"
  define q where "q = roundAbs (y / 2147483647)"
  define n where "n = real i + 1"
  define t where "t = roundAbs (q * n)"
  have n1: "1 \<le> n"
    by (simp add: n_def)
  have c0: "0 < c" and c1: "c < 1" and ch: "1 / 2 \<le> c"
    by (simp_all add: c_def)
  have y0: "0 \<le> y / 2147483647"
    using assms(1) by simp
  have yc: "y / 2147483647 \<le> c"
    using assms(2) by (simp add: c_def field_simps)
  have q0: "0 \<le> q"
    unfolding q_def by (rule roundAbs_nonneg [OF y0])
  have "q \<le> roundAbs c"
    unfolding q_def by (rule roundAbs_mono [OF y0 yc])
  then have qc: "q \<le> c"
    by (simp only: c_def roundAbs_below_one)
  have "q < 2 ^ 1024"
    using qc c1 by (simp add: less_le_trans [of _ 1])
  then have d: "toDouble (y / 2147483647) = Fin q"
    unfolding q_def by (rule toDouble_nonneg [OF y0])
  have qn0: "0 \<le> q * n"
    using q0 n1 by simp
  have qn: "q * n \<le> c * n"
    using qc n1 by (simp add: mult_right_mono)
  have t0: "0 \<le> t"
    unfolding t_def by (rule roundAbs_nonneg [OF qn0])
  have "(2::real) powi (- 1022) \<le> 2 powi (- 1)"
    by (rule power_int_increasing) simp_all
  also have "\<dots> = 1 / 2"
    by (simp add: power_int_minus_divide)
  also have "\<dots> \<le> c * 1"
    using ch by simp
  also have "\<dots> \<le> c * n"
    using n1 c0 by (intro mult_left_mono) simp_all
  finally have normal: "2 powi (- 1022) \<le> c * n" .
  have "t \<le> roundAbs (c * n)"
    unfolding t_def by (rule roundAbs_mono [OF qn0 qn])
  also have "\<dots> \<le> c * n * (1 + 1 / 2 ^ 53)"
    by (rule roundAbs_upper [OF normal])
  also have "\<dots> = n * (c * (1 + 1 / 2 ^ 53))"
    by simp
  also have "\<dots> < n * 1"
    using n1 by (intro mult_strict_left_mono) (simp_all add: c_def)
  finally have tn: "t < n"
    by simp
  have "n \<le> 2 ^ 32"
    using assms(3) by (simp add: n_def)
  then have "t < 2 ^ 1024"
    using tn by simp
  then have m: "toDouble (q * n) = Fin t"
    unfolding t_def by (rule toDouble_nonneg [OF qn0])
  have p: "pickIndex (Fin y) i = Fin (of_int \<lfloor>t\<rfloor>)"
    by (simp add: pickIndex_def d m n_def [symmetric])
  have f0: "0 \<le> \<lfloor>t\<rfloor>"
    using t0 by simp
  have "t < of_int (int i + 1)"
    using tn by (simp add: n_def)
  then have "\<lfloor>t\<rfloor> < int i + 1"
    by (simp only: floor_less_iff)
  then have "nat \<lfloor>t\<rfloor> \<le> i"
    by simp
  moreover have "pickIndex (Fin y) i = Fin (real (nat \<lfloor>t\<rfloor>))"
    using f0 by (simp add: p)
  ultimately show ?thesis
    by blast
qed

lemma elemIndex_nat: "j < length (elems a) \<Longrightarrow> elemIndex a (Fin (real j)) = Some j"
  by (simp add: elemIndex_def)

text \<open>
  With a state that is not negative the loop never leaves the array: it is the
  Fisher-Yates pass on the elements, and no property is created.
\<close>

lemma shuffleFrom_fisherYates:
  assumes "0 \<le> x" and "roundAbs (x * 16807) < 2 ^ 1024"
    and "i < length (elems a)" and "length (elems a) \<le> 2 ^ 32"
  shows "elems (shuffleFrom i (Fin x) a) = fisherYates i (Fin x) (elems a) \<and>
    props (shuffleFrom i (Fin x) a) = props a \<and>
    mset (fisherYates i (Fin x) (elems a)) = mset (elems a)"
  using assms
proof (induction i arbitrary: x a)
  case 0
  then show ?case by simp
next
  case (Suc i)
  from lcgNext_range [OF Suc.prems(1,2)] obtain y
    where y: "lcgNext (Fin x) = Fin y" "0 \<le> y" "y \<le> 2147483647 - 1 / 2 ^ 22"
    by blast
  have "real (Suc i) + 1 \<le> real (length (elems a))"
    using Suc.prems(3) by linarith
  also have "\<dots> \<le> 2 ^ 32"
    using Suc.prems(4) by (metis of_nat_le_iff of_nat_numeral of_nat_power)
  finally have b: "real (Suc i) + 1 \<le> 2 ^ 32" .
  from pickIndex_range [OF y(2,3) b] obtain j
    where j: "pickIndex (Fin y) (Suc i) = Fin (real j)" "j \<le> Suc i"
    by blast
  have jl: "j < length (elems a)"
    using j(2) Suc.prems(3) by simp
  define a2 where "a2 = a\<lparr>elems := (elems a)[Suc i := elems a ! j, j := elems a ! Suc i]\<rparr>"
  have i1: "elemIndex a (Fin (real (Suc i))) = Some (Suc i)"
    by (rule elemIndex_nat [OF Suc.prems(3)])
  have j1: "elemIndex a (Fin (real j)) = Some j"
    by (rule elemIndex_nat [OF jl])
  have j2: "elemIndex (a\<lparr>elems := (elems a)[Suc i := elems a ! j]\<rparr>) (Fin (real j)) = Some j"
    using jl by (intro elemIndex_nat) simp
  have g1: "arr_get a (Fin (real (Suc i))) = elems a ! Suc i"
    by (simp only: arr_get_def i1 option.case)
  have g2: "arr_get a (Fin (real j)) = elems a ! j"
    by (simp only: arr_get_def j1 option.case)
  have s1: "arr_set a (Fin (real (Suc i))) (elems a ! j) = a\<lparr>elems := (elems a)[Suc i := elems a ! j]\<rparr>"
    by (simp only: arr_set_def i1 option.case)
  have s2: "arr_set (a\<lparr>elems := (elems a)[Suc i := elems a ! j]\<rparr>) (Fin (real j)) (elems a ! Suc i) = a2"
    by (simp add: arr_set_def j2 a2_def)
  have step: "shuffleFrom (Suc i) (Fin x) a = shuffleFrom i (Fin y) a2"
    by (simp only: shuffleFrom.simps Let_def y(1) j(1) g1 g2 s1 s2)
  have fy: "fisherYates (Suc i) (Fin x) (elems a) = fisherYates i (Fin y) (elems a2)"
    by (simp add: Let_def y(1) j(1) a2_def)
  have len: "length (elems a2) = length (elems a)"
    by (simp add: a2_def)
  have m: "mset (elems a2) = mset (elems a)"
    using Suc.prems(3) jl by (simp add: a2_def mset_swap)
  have p: "props a2 = props a"
    by (simp add: a2_def)
  have il: "i < length (elems a2)" and l2: "length (elems a2) \<le> 2 ^ 32"
    using Suc.prems(3,4) by (simp_all add: len)
  from Suc.IH [OF y(2) state_stays_finite [OF y(2,3)] il l2] show ?case
    unfolding step fy by (simp only: m p)
qed


text \<open>On integer states the generator is the one of Park and Miller.\<close>

lemma lcgNext_integer:
  assumes "0 \<le> k" and "k * 16807 \<le> 2 ^ 53"
  shows "lcgNext (Fin (of_int k)) = Fin (of_int ((k * 16807) mod 2147483647))"
proof -
  define P where "P = k * 16807"
  have P0: "0 \<le> P"
    using assms(1) by (simp add: P_def)
  have "\<bar>P\<bar> \<le> 2 ^ 53"
    using assms(2) P0 by (simp add: P_def)
  then have "toDouble (of_int P) = Fin (of_int P)"
    by (rule toDouble_of_int)
  then have m: "toDouble (of_int k * 16807) = Fin (of_int P)"
    by (simp add: P_def)
  have "\<lfloor>(of_int P :: real) / of_int 2147483647\<rfloor> = P div 2147483647"
    by (rule floor_divide_of_int_eq)
  then have f: "\<lfloor>(of_int P :: real) / 2147483647\<rfloor> = P div 2147483647"
    by simp
  have "(of_int P :: real) - 2147483647 * of_int (P div 2147483647) = of_int (P - 2147483647 * (P div 2147483647))"
    by simp
  also have "P - 2147483647 * (P div 2147483647) = P mod 2147483647"
    by (simp add: minus_mult_div_eq_mod)
  finally have r: "(of_int P :: real) - 2147483647 * of_int (P div 2147483647) = of_int (P mod 2147483647)" .
  show ?thesis
  proof (cases "P = 0")
    case True
    then show ?thesis
      using m by (simp add: lcgNext_def P_def [symmetric])
  next
    case False
    then have "0 < P"
      using P0 by simp
    then show ?thesis
      using m r by (simp add: lcgNext_def P_def [symmetric] f)
  qed
qed

lemma isFinite_toDouble: "isFinite (toDouble y) \<longleftrightarrow> roundAbs \<bar>y\<bar> < 2 ^ 1024"
  by (simp add: toDouble_def)

lemma shuffle_fisherYates:
  assumes "0 \<le> x" and "isFinite (js_mul (Fin x) (Fin 16807))" and "length a \<le> 2 ^ 32"
  shows "shuffle a (Fin x) = fisherYates (length a - 1) (Fin x) a"
    and "mset (shuffle a (Fin x)) = mset a"
proof -
  have "0 \<le> x * 16807"
    using assms(1) by simp
  then have f: "roundAbs (x * 16807) < 2 ^ 1024"
    using assms(2) by (simp add: isFinite_toDouble)
  have both: "shuffle a (Fin x) = fisherYates (length a - 1) (Fin x) a \<and>
      mset (shuffle a (Fin x)) = mset a"
  proof (cases a)
    case Nil
    then show ?thesis
      by (simp add: shuffle_def)
  next
    case (Cons v vs)
    define a0 where "a0 = \<lparr>elems = a, props = []\<rparr>"
    have e: "elems a0 = a"
      by (simp add: a0_def)
    have "length a - 1 < length (elems a0)" and "length (elems a0) \<le> 2 ^ 32"
      using assms(3) Cons by (simp_all add: e)
    from shuffleFrom_fisherYates [OF assms(1) f this]
    have 1: "elems (shuffleFrom (length a - 1) (Fin x) a0) = fisherYates (length a - 1) (Fin x) a"
      and 2: "mset (fisherYates (length a - 1) (Fin x) a) = mset a"
      by (simp_all only: e)
    have 3: "shuffle a (Fin x) = fisherYates (length a - 1) (Fin x) a"
      unfolding shuffle_def a0_def [symmetric] by (rule 1)
    then have "mset (shuffle a (Fin x)) = mset a"
      by (simp only: 2)
    with 3 show ?thesis ..
  qed
  from both show "shuffle a (Fin x) = fisherYates (length a - 1) (Fin x) a"
    by (rule conjunct1)
  from both show "mset (shuffle a (Fin x)) = mset a"
    by (rule conjunct2)
qed

subsection \<open>The sizes of the three parts\<close>

lemma floorMul_bound:
  assumes "0 \<le> m"
  shows "int (floorMul n m e) * 2 ^ e * 2 ^ 52 \<le> int n * m * (2 ^ 52 + 1)"
proof -
  define k where "k = int n * m"
  define sh where "sh = nat (bitlen k - 53)"
  define q where "q = k div 2 ^ sh"
  define r where "r = k mod 2 ^ sh"
  define q' where "q' = (if 2 * r > 2 ^ sh \<or> (2 * r = 2 ^ sh \<and> odd q) then q + 1 else q)"
  have k0: "0 \<le> k"
    using assms by (simp add: k_def)
  have fm: "floorMul n m e = nat ((q' * 2 ^ sh) div 2 ^ e)"
    by (simp add: floorMul_def Let_def k_def sh_def q_def r_def q'_def)
  have q0: "0 \<le> q"
    using k0 by (simp add: q_def pos_imp_zdiv_nonneg_iff)
  have kqr: "k = q * 2 ^ sh + r"
    unfolding q_def r_def by (rule div_mult_mod_eq [symmetric])
  have r0: "0 \<le> r"
    by (simp add: r_def)
  have R: "q' * 2 ^ sh * 2 ^ 52 \<le> k * (2 ^ 52 + 1)"
  proof (cases "sh = 0")
    case True
    then have "r = 0" and "q' = q" and "q = k"
      by (simp_all add: r_def q'_def q_def)
    then show ?thesis
      using k0 True by (simp add: distrib_left)
  next
    case False
    then have b: "53 < bitlen k"
      by (simp add: sh_def)
    then have kpos: "0 < k"
      using k0 by (cases "k = 0") (simp_all add: bitlen_def floorlog_def)
    have "2 ^ nat (bitlen k - 1) \<le> k"
      using bitlen_bounds [OF kpos] by simp
    moreover have "nat (bitlen k - 1) = sh + 52"
      using b by (simp add: sh_def)
    ultimately have big: "(2::int) ^ sh * 2 ^ 52 \<le> k"
      by (simp add: power_add)
    have "q' \<le> q + 1"
      by (simp add: q'_def)
    then have "q' * 2 ^ sh \<le> (q + 1) * 2 ^ sh"
      by (intro mult_right_mono) simp_all
    also have "\<dots> \<le> k + 2 ^ sh"
      using r0 by (simp add: kqr distrib_right)
    finally have "q' * 2 ^ sh * 2 ^ 52 \<le> (k + 2 ^ sh) * 2 ^ 52"
      by (intro mult_right_mono) simp_all
    also have "\<dots> \<le> k * 2 ^ 52 + k"
      using big by (simp add: distrib_right)
    finally show ?thesis
      by (simp add: distrib_left)
  qed
  have q'0: "0 \<le> q'"
    using q0 by (simp add: q'_def)
  have "0 \<le> (q' * 2 ^ sh) div 2 ^ e"
    using q'0 by (simp add: pos_imp_zdiv_nonneg_iff)
  then have "int (floorMul n m e) * 2 ^ e = ((q' * 2 ^ sh) div 2 ^ e) * 2 ^ e"
    by (simp add: fm)
  also have "\<dots> \<le> q' * 2 ^ sh"
    by (metis (no_types) div_mult_self_is_m mult.commute zdiv_mono1 zero_less_numeral zero_less_power
        div_mult_mod_eq add_increasing2 pos_mod_sign order_refl)
  finally have "int (floorMul n m e) * 2 ^ e * 2 ^ 52 \<le> q' * 2 ^ sh * 2 ^ 52"
    by (intro mult_right_mono) simp_all
  with R show ?thesis
    by (simp add: k_def)
qed

lemma nTrainOf_bound: "4 * nTrainOf n \<le> 3 * n"
proof -
  have "int (nTrainOf n) * 2 ^ 53 * 2 ^ 52 \<le> int n * 6305039478318694 * (2 ^ 52 + 1)"
    unfolding nTrainOf_def by (rule floorMul_bound) simp
  then have "4 * int (nTrainOf n) \<le> 3 * int n"
    by simp
  then show ?thesis by linarith
qed

lemma nValOf_bound: "5 * nValOf n \<le> n"
proof -
  have "int (nValOf n) * 2 ^ 55 * 2 ^ 52 \<le> int n * 5404319552844595 * (2 ^ 52 + 1)"
    unfolding nValOf_def by (rule floorMul_bound) simp
  then have "5 * int (nValOf n) \<le> int n"
    by simp
  then show ?thesis by linarith
qed

lemma split_sizes_fit: "nTrainOf n + nValOf n \<le> n"
  using nTrainOf_bound [of n] nValOf_bound [of n] by linarith

text \<open>
  The double product is not the exact one: \<open>90 * 0.7\<close> is \<open>62.99999999999999\<close> in doubles,
  so 62 rows go to training where the exact \<open>floor (7 * 90 / 10)\<close> is 63.
\<close>

lemma nTrainOf_90: "nTrainOf 90 = 62 \<and> (7 * 90) div 10 = (63::nat)"
  by code_simp

subsection \<open>The split of prepareMatrices\<close>

lemma prepareMatrices_split:
  assumes "ld_schema st = Some sch" and "ld_raw st = Some rows"
  shows "ld_split (fst (prepareMatrices st scalerType seed)) = splitIndices (length rows) seed"
  by (simp add: prepareMatrices_state [OF assms])

lemma splitIndices_parts:
  "idxTrain (splitIndices n seed) @ idxVal (splitIndices n seed) @ idxTest (splitIndices n seed)
     = shuffle (map Some [0 ..< n]) seed"
proof -
  have "take a xs @ take b (drop a xs) @ drop (a + b) xs = xs" for a b and xs :: "nat option list"
    by (metis append_take_drop_id drop_drop add.commute)
  then show ?thesis
    by (simp add: splitIndices_def Let_def)
qed

lemma splitIndices_lengths:
  assumes "length (shuffle (map Some [0 ..< n]) seed) = n"
  shows "length (idxTrain (splitIndices n seed)) = nTrainOf n"
    and "length (idxVal (splitIndices n seed)) = nValOf n"
    and "length (idxTest (splitIndices n seed)) = n - nTrainOf n - nValOf n"
  using assms split_sizes_fit [of n] by (simp_all add: splitIndices_def Let_def)

text \<open>The generator and the picked index on the two example rows.\<close>

lemma lcgNext_2025: "lcgNext (Fin 2025) = Fin 34034175"
  using lcgNext_integer [of 2025] by simp

lemma pickIndex_2025: "pickIndex (Fin 34034175) (Suc 0) = Fin 0"
  by (simp add: pickIndex_def dbl_eval)

lemma lcgNext_minus_1: "lcgNext (Fin (- 1)) = Fin (- 16807)"
  by (simp add: lcgNext_def dbl_eval)

lemma pickIndex_minus_1: "pickIndex (Fin (- 16807)) (Suc 0) = Fin (- 1)"
  by (simp add: pickIndex_def dbl_eval)

lemma shuffle_two_2025: "shuffle [Some 0, Some 1] (Fin 2025) = [Some 1, Some 0]"
  by (simp add: shuffle_def Let_def lcgNext_2025 pickIndex_2025 arr_get_def arr_set_def elemIndex_def)

lemma shuffle_two_minus_1: "shuffle [Some 0, Some 1] (Fin (- 1)) = [Some 0, None]"
  by (simp add: shuffle_def Let_def lcgNext_minus_1 pickIndex_minus_1 arr_get_def arr_set_def
      elemIndex_def)

lemma sizes_two: "nTrainOf 2 = 1" "nValOf 2 = 0"
  by code_simp+

text \<open>
  C2 as the specification states it, for every seed: with the seed \<open>-1\<close> the generator
  state is negative, the picked index is \<open>-1\<close>, and the swap stores \<open>undefined\<close> in
  the array. On the two example rows, row 1 is in no part and the test part holds
  \<open>undefined\<close>.
\<close>

theorem negative_seed_loses_rows:
  "ld_split (fst (prepareMatrices demoLoader ''minmax'' (Fin (- 1)))) =
     \<lparr>idxTrain = [Some 0], idxVal = [], idxTest = [None]\<rparr>"
proof -
  have s: "ld_schema demoLoader = Some demoSchema" and r: "ld_raw demoLoader = Some demoRows"
    by (simp_all add: demoLoader_def newLoader_def)
  have l: "length demoRows = 2"
    by (simp add: demoRows_def)
  have u: "[0 ..< 2] = [0, Suc 0]"
    by (simp add: upt_rec)
  have "splitIndices 2 (Fin (- 1)) = \<lparr>idxTrain = [Some 0], idxVal = [], idxTest = [None]\<rparr>"
    using shuffle_two_minus_1 by (simp add: splitIndices_def Let_def sizes_two u)
  then show ?thesis
    by (simp add: prepareMatrices_split [OF s r] l)
qed

text \<open>
  C2, amended: for every row count \<open>n\<close> (the length of an array, so below \<open>2^32\<close>) and
  every seed that is a finite number, not negative, whose product with 16807 is finite in
  doubles, the split that \<open>prepareMatrices\<close> stores depends on \<open>n\<close> and the seed only; its
  three lists are consecutive pieces of the index list \<open>0, ..., n-1\<close> after a
  Fisher-Yates pass, so together they hold every index below \<open>n\<close> exactly once and are
  pairwise disjoint; and their lengths are \<open>Math.floor(n*0.7)\<close>, \<open>Math.floor(n*0.15)\<close>, both
  products taken in double arithmetic, and the rest. The generator that drives the pass
  is the linear congruential one with multiplier 16807 and modulus 2147483647: from an
  integer state \<open>k\<close> below the modulus the next state is \<open>k * 16807 mod 2147483647\<close>.
\<close>

theorem split_partitions_rows:
  assumes "ld_schema st = Some sch" and "ld_raw st = Some rows" and "length rows < 2 ^ 32"
    and "0 \<le> x" and "isFinite (js_mul (Fin x) (Fin 16807))"
  shows "ld_split (fst (prepareMatrices st scalerType (Fin x))) = splitIndices (length rows) (Fin x) \<and>
    idxTrain (splitIndices (length rows) (Fin x)) @ idxVal (splitIndices (length rows) (Fin x)) @
          idxTest (splitIndices (length rows) (Fin x)) =
      fisherYates (length rows - 1) (Fin x) (map Some [0 ..< length rows]) \<and>
    mset (idxTrain (splitIndices (length rows) (Fin x)) @ idxVal (splitIndices (length rows) (Fin x)) @
          idxTest (splitIndices (length rows) (Fin x))) = mset (map Some [0 ..< length rows]) \<and>
    distinct (idxTrain (splitIndices (length rows) (Fin x)) @ idxVal (splitIndices (length rows) (Fin x)) @
          idxTest (splitIndices (length rows) (Fin x))) \<and>
    set (idxTrain (splitIndices (length rows) (Fin x))) \<union> set (idxVal (splitIndices (length rows) (Fin x))) \<union>
          set (idxTest (splitIndices (length rows) (Fin x))) = Some ` {0 ..< length rows} \<and>
    set (idxTrain (splitIndices (length rows) (Fin x))) \<inter> set (idxVal (splitIndices (length rows) (Fin x))) = {} \<and>
    set (idxTrain (splitIndices (length rows) (Fin x))) \<inter> set (idxTest (splitIndices (length rows) (Fin x))) = {} \<and>
    set (idxVal (splitIndices (length rows) (Fin x))) \<inter> set (idxTest (splitIndices (length rows) (Fin x))) = {} \<and>
    length (idxTrain (splitIndices (length rows) (Fin x))) = nTrainOf (length rows) \<and>
    length (idxVal (splitIndices (length rows) (Fin x))) = nValOf (length rows) \<and>
    length (idxTest (splitIndices (length rows) (Fin x))) =
      length rows - nTrainOf (length rows) - nValOf (length rows) \<and>
    (\<forall>k. 0 \<le> k \<and> k < 2147483647 \<longrightarrow>
       lcgNext (Fin (of_int k)) = Fin (of_int (k * 16807 mod 2147483647)))"
proof -
  define n where "n = length rows"
  define sp where "sp = splitIndices n (Fin x)"
  define all where "all = idxTrain sp @ idxVal sp @ idxTest sp"
  have len: "length (map Some [0 ..< n]) \<le> 2 ^ 32"
    using assms(3) by (simp add: n_def)
  note sh = shuffle_fisherYates [OF assms(4,5) len]
  have fy: "all = fisherYates (n - 1) (Fin x) (map Some [0 ..< n])"
    unfolding all_def sp_def splitIndices_parts using sh(1) by simp
  have m: "mset all = mset (map Some [0 ..< n])"
    unfolding all_def sp_def splitIndices_parts by (rule sh(2))
  have "length (shuffle (map Some [0 ..< n]) (Fin x)) = length (map Some [0 ..< n])"
    using sh(2) by (rule mset_eq_length)
  then have sl: "length (shuffle (map Some [0 ..< n]) (Fin x)) = n"
    by simp
  have "distinct (map Some [0 ..< n])"
    by (simp add: distinct_map)
  then have d: "distinct all"
    using m by (metis mset_eq_imp_distinct_iff)
  have "set all = set (map Some [0 ..< n])"
    using m by (rule mset_eq_setD)
  then have u: "set (idxTrain sp) \<union> set (idxVal sp) \<union> set (idxTest sp) = Some ` {0 ..< n}"
    by (simp add: all_def Un_assoc)
  have dj: "set (idxTrain sp) \<inter> set (idxVal sp) = {}" "set (idxTrain sp) \<inter> set (idxTest sp) = {}"
    "set (idxVal sp) \<inter> set (idxTest sp) = {}"
    using d by (auto simp: all_def)
  have g: "lcgNext (Fin (of_int k)) = Fin (of_int (k * 16807 mod 2147483647))"
    if "0 \<le> k \<and> k < 2147483647" for k :: int
    using that by (intro lcgNext_integer) simp_all
  have p: "ld_split (fst (prepareMatrices st scalerType (Fin x))) = sp"
    by (simp add: prepareMatrices_split [OF assms(1,2)] sp_def n_def)
  show ?thesis
    unfolding n_def [symmetric] sp_def [symmetric] all_def [symmetric]
    using p fy m d u dj splitIndices_lengths [OF sl] g
    by (simp add: sp_def [symmetric])
qed

theorem split_partitions_rows_witness:
  "ld_schema demoLoader = Some demoSchema \<and> ld_raw demoLoader = Some demoRows \<and>
   length demoRows < 2 ^ 32 \<and> (0::real) \<le> 2025 \<and>
   js_mul (Fin 2025) (Fin 16807) = Fin 34034175 \<and>
   ld_split (fst (prepareMatrices demoLoader ''standard'' (Fin 2025))) =
     \<lparr>idxTrain = [Some 1], idxVal = [], idxTest = [Some 0]\<rparr> \<and>
   fisherYates 1 (Fin 2025) [Some 0, Some (1::nat)] = [Some 1, Some 0] \<and>
   nTrainOf 2 = 1 \<and> nValOf 2 = 0 \<and>
   lcgNext (Fin 2025) = Fin 34034175"
proof -
  have s: "ld_schema demoLoader = Some demoSchema" and r: "ld_raw demoLoader = Some demoRows"
    by (simp_all add: demoLoader_def newLoader_def)
  have l: "length demoRows = 2"
    by (simp add: demoRows_def)
  have b: "length demoRows < 2 ^ 32"
    by (simp add: l)
  have m: "js_mul (Fin 2025) (Fin 16807) = Fin 34034175"
    using toDouble_of_int [of 34034175] by simp
  have f: "isFinite (js_mul (Fin 2025) (Fin 16807))"
    by (simp only: m isFinite.simps)
  have u: "map Some [0 ..< 2] = [Some 0, Some 1]"
    by (simp add: upt_rec)
  have e: "splitIndices 2 (Fin 2025) = \<lparr>idxTrain = [Some 1], idxVal = [], idxTest = [Some 0]\<rparr>"
    using shuffle_two_2025 by (simp add: splitIndices_def Let_def sizes_two upt_rec)
  have x0: "(0::real) \<le> 2025"
    by simp
  have d1: "(2::nat) - 1 = 1"
    by simp
  note t = split_partitions_rows [OF s r b x0 f, of "''standard''"]
  have p: "ld_split (fst (prepareMatrices demoLoader ''standard'' (Fin 2025))) =
     \<lparr>idxTrain = [Some 1], idxVal = [], idxTest = [Some 0]\<rparr>"
    using t by (simp only: l e)
  have "idxTrain (splitIndices 2 (Fin 2025)) @ idxVal (splitIndices 2 (Fin 2025)) @
          idxTest (splitIndices 2 (Fin 2025)) = fisherYates (2 - 1) (Fin 2025) (map Some [0 ..< 2])"
    using t by (simp only: l)
  then have "[Some 1] @ [] @ [Some 0] = fisherYates 1 (Fin 2025) [Some 0, Some (1::nat)]"
    by (simp only: e u d1 split.select_convs)
  then have "[Some 1, Some 0] = fisherYates 1 (Fin 2025) [Some 0, Some (1::nat)]"
    by (simp only: append.simps)
  then have fy: "fisherYates 1 (Fin 2025) [Some 0, Some (1::nat)] = [Some 1, Some 0]"
    by (rule sym)
  have "\<forall>k. 0 \<le> k \<and> k < 2147483647 \<longrightarrow>
       lcgNext (Fin (of_int k)) = Fin (of_int (k * 16807 mod 2147483647))"
    using t by (elim conjE)
  then have "0 \<le> (2025::int) \<and> (2025::int) < 2147483647 \<longrightarrow>
      lcgNext (Fin (of_int 2025)) = Fin (of_int (2025 * 16807 mod 2147483647))"
    by (rule spec)
  then have g: "lcgNext (Fin 2025) = Fin 34034175"
    by simp
  from s r b x0 m p fy sizes_two g show ?thesis
    by blast
qed


subsection \<open>Filters\<close>

lemma matchRow_noFilters: "matchRow noFilters fs r"
  by (induction fs) (auto simp: noFilters_def)

lemma matchRow_add_entry:
  "flts k = None \<Longrightarrow> matchRow (flts(k \<mapsto> e)) fs r \<Longrightarrow> matchRow flts fs r"
proof (induction fs)
  case Nil
  then show ?case by simp
next
  case (Cons kf fs)
  obtain k' f where kf: "kf = (k', f)" by (cases kf)
  show ?case
  proof (cases "k' = k")
    case True
    with Cons show ?thesis
      by (simp add: kf split: if_splits)
  next
    case False
    with Cons show ?thesis
      by (simp add: kf split: option.splits if_splits)
  qed
qed

lemma indicesByFilters_loaded:
  assumes "ld_raw st = Some rows" and "ld_schema st = Some sch"
    and "readFilterFn (Some sch) = Inr flts"
  shows "indicesByFilters st readFilterFn = Inr (passingIndices flts (own_entries (features sch)) rows)"
  using assms by (simp add: indicesByFilters_def passingIndices_def)

text \<open>
  C5: on a loaded data set (rows and schema present), the empty descriptor gives every row
  index in order; and a descriptor with one more entry, for a feature that had none, gives
  indices that all occur in the result without that entry.
\<close>

theorem filters_only_shrink:
  assumes "ld_raw st = Some rows" and "ld_schema st = Some sch"
    and "readFilterFn (Some sch) = Inr flts" and "flts k = None"
    and "readFilterFn' (Some sch) = Inr (flts(k \<mapsto> e))"
  shows "indicesByFilters st (\<lambda>s. Inr noFilters) = Inr [0 ..< length rows] \<and>
    indicesByFilters st readFilterFn = Inr (passingIndices flts (own_entries (features sch)) rows) \<and>
    indicesByFilters st readFilterFn' =
      Inr (passingIndices (flts(k \<mapsto> e)) (own_entries (features sch)) rows) \<and>
    set (passingIndices (flts(k \<mapsto> e)) (own_entries (features sch)) rows)
      \<subseteq> set (passingIndices flts (own_entries (features sch)) rows)"
proof -
  have "indicesByFilters st (\<lambda>s. Inr noFilters) = Inr [0 ..< length rows]"
    using assms(1,2) by (simp add: indicesByFilters_def passingIndices_def matchRow_noFilters)
  moreover have "set (passingIndices (flts(k \<mapsto> e)) (own_entries (features sch)) rows)
      \<subseteq> set (passingIndices flts (own_entries (features sch)) rows)"
    using matchRow_add_entry [of flts k, OF assms(4)] by (auto simp: passingIndices_def)
  moreover have "indicesByFilters st readFilterFn =
      Inr (passingIndices flts (own_entries (features sch)) rows)"
    using assms(1,2,3) by (rule indicesByFilters_loaded)
  moreover have "indicesByFilters st readFilterFn' =
      Inr (passingIndices (flts(k \<mapsto> e)) (own_entries (features sch)) rows)"
    using assms(1,2,5) by (rule indicesByFilters_loaded)
  ultimately show ?thesis
    by simp
qed

text \<open>The numeric cells of the example rows.\<close>

lemma toNumberMaybe_2: "toNumberMaybe (Some ''2'') = Fin 2"
proof -
  have "Number_of (Some ''2'') = toDouble (of_int 2)"
    by (simp add: literal_eval)
  also have "\<dots> = Fin 2"
    using toDouble_of_int [of 2] by simp
  finally show ?thesis
    by (simp add: toNumberMaybe_def)
qed

lemma toNumberMaybe_1: "toNumberMaybe (Some ''1'') = Fin 1"
proof -
  have "Number_of (Some ''1'') = toDouble (of_int 1)"
    by (simp add: literal_eval)
  also have "\<dots> = Fin 1"
    using toDouble_of_int [of 1] by simp
  finally show ?thesis
    by (simp add: toNumberMaybe_def)
qed

lemma demoLoader_fields:
  "ld_schema demoLoader = Some demoSchema" "ld_raw demoLoader = Some demoRows"
  by (simp_all add: demoLoader_def newLoader_def)

lemma demo_entries: "own_entries (features demoSchema) = features demoSchema"
  by (simp add: own_entries_def demoSchema_def isArrayIndex_def isDigit_def)

theorem filters_only_shrink_witness:
  "ld_raw demoLoader = Some demoRows \<and> ld_schema demoLoader = Some demoSchema \<and>
   noFilters ''num_lanes'' = None \<and>
   indicesByFilters demoLoader (\<lambda>s. Inr noFilters) = Inr [0, 1] \<and>
   indicesByFilters demoLoader (\<lambda>s. Inr (noFilters(''num_lanes'' \<mapsto> lanesFilter))) = Inr [0]"
proof -
  note n = toNumberMaybe_2 toNumberMaybe_1
  have p: "passingIndices (noFilters(''num_lanes'' \<mapsto> lanesFilter)) (features demoSchema) demoRows = [0]"
    by (simp add: passingIndices_def demoSchema_def demoRows_def noFilters_def lanesFilter_def
        passes_def obj_get_def n upt_rec)
  have l: "[0 ..< length demoRows] = [0, 1]"
    by (simp add: demoRows_def upt_rec)
  have e: "noFilters ''num_lanes'' = None"
    by (simp add: noFilters_def)
  show ?thesis
    using filters_only_shrink [OF demoLoader_fields(2,1), of "\<lambda>s. Inr noFilters" noFilters
        "''num_lanes''" "\<lambda>s. Inr (noFilters(''num_lanes'' \<mapsto> lanesFilter))" lanesFilter]
    by (simp add: demoLoader_fields demo_entries p l e)
qed

subsection \<open>Iteration order keeps the keys unique\<close>

lemma own_entries_set: "set (own_entries ps) = set ps"
  by (auto simp: own_entries_def)

lemma own_entries_distinct:
  assumes "distinct (map fst ps)"
  shows "distinct (map fst (own_entries ps))"
proof -
  have inj: "inj_on fst (set ps)" and d: "distinct ps"
    using assms by (simp_all add: distinct_map)
  let ?a = "filter (\<lambda>p. isArrayIndex (fst p)) ps"
  let ?b = "filter (\<lambda>p. \<not> isArrayIndex (fst p)) ps"
  have "inj_on fst (set ?a)" "inj_on fst (set ?b)"
    using inj by (auto intro: inj_on_subset)
  then have "distinct (map fst (sort_key (\<lambda>p. natOfDigits (fst p)) ?a))" "distinct (map fst ?b)"
    using d by (simp_all add: distinct_map)
  moreover have "fst ` set ?a \<inter> fst ` set ?b = {}"
    by auto
  ultimately show ?thesis
    by (simp add: own_entries_def)
qed

subsection \<open>The encoder table and the feature names\<close>

lemma encoderOf_put: "encoderOf (obj_put enc k vs) k = vs"
  by (simp add: encoderOf_def obj_get_def map_of_obj_put)

lemma encoderOf_put_other: "k' \<noteq> k \<Longrightarrow> encoderOf (obj_put enc k vs) k' = encoderOf enc k'"
  by (simp add: encoderOf_def obj_get_def map_of_obj_put)

lemma buildEncoders_other:
  "k \<notin> fst ` set fs \<Longrightarrow> encoderOf (fst (buildEncoders fs (enc, names))) k = encoderOf enc k"
proof (induction fs arbitrary: enc names)
  case Nil
  then show ?case by simp
next
  case (Cons kf fs)
  obtain k' f where kf: "kf = (k', f)" by (cases kf)
  from Cons.prems have ne: "k \<noteq> k'" and rest: "k \<notin> fst ` set fs"
    by (auto simp: kf)
  show ?case
    using Cons.IH [OF rest] ne
    by (cases "ftype f") (simp_all add: kf Let_def encoderOf_put_other)
qed

lemma buildEncoders_categorical:
  "distinct (map fst fs) \<Longrightarrow> (k, f) \<in> set fs \<Longrightarrow> ftype f = Categorical \<Longrightarrow>
   encoderOf (fst (buildEncoders fs (enc, names))) k = valuesOf f"
proof (induction fs arbitrary: enc names)
  case Nil
  then show ?case by simp
next
  case (Cons kf fs)
  obtain k' f' where kf: "kf = (k', f')" by (cases kf)
  from Cons.prems(1) have fresh: "k' \<notin> fst ` set fs" and d: "distinct (map fst fs)"
    by (simp_all add: kf)
  show ?case
  proof (cases "(k, f) = (k', f')")
    case True
    then show ?thesis
      using Cons.prems(3) fresh by (simp add: kf Let_def buildEncoders_other encoderOf_put)
  next
    case False
    with Cons.prems(2) have "(k, f) \<in> set fs"
      by (auto simp: kf)
    from Cons.IH [OF d this Cons.prems(3)] show ?thesis
      by (cases "ftype f'") (simp_all add: kf Let_def)
  qed
qed

lemma buildEncoders_names_length:
  "length (snd (buildEncoders fs (enc, names))) = length names + encodedWidth fs"
proof (induction fs arbitrary: enc names)
  case Nil
  then show ?case by (simp add: encodedWidth_def)
next
  case (Cons kf fs)
  obtain k f where kf: "kf = (k, f)" by (cases kf)
  show ?case
    using Cons.IH
    by (cases "ftype f") (simp_all add: kf Let_def encodedWidth_def featureWidth_def encoderOf_put)
qed

subsection \<open>The width of an encoded row\<close>

lemma encodeFeature_length:
  "length (encodeFeature enc r (k, f)) =
     (if ftype f = Categorical then length (encoderOf enc k) else 1)"
  by (cases "ftype f") (simp_all add: encodeFeature_def)

lemma encodeRow_length:
  assumes "\<forall>kf \<in> set fs. ftype (snd kf) = Categorical \<longrightarrow> encoderOf enc (fst kf) = valuesOf (snd kf)"
  shows "length (encodeRow enc fs r) = encodedWidth fs"
  using assms
proof (induction fs)
  case Nil
  then show ?case by (simp add: encodeRow_def encodedWidth_def)
next
  case (Cons kf fs)
  obtain k f where kf: "kf = (k, f)" by (cases kf)
  from Cons show ?case
    by (simp add: encodeRow_def encodedWidth_def kf encodeFeature_length featureWidth_def)
qed

lemma columnOrigin_length: "length (columnOrigin fs) = encodedWidth fs"
  by (induction fs) (simp_all add: columnOrigin_def encodedWidth_def)

text \<open>The walk visits exactly the columns that do not come from a categorical feature.\<close>

lemma colIdxFrom_iff:
  assumes "\<forall>kf \<in> set fs. ftype (snd kf) = Categorical \<longrightarrow> encoderOf enc (fst kf) = valuesOf (snd kf)"
  shows "c \<in> set (colIdxFrom enc fs p) \<longleftrightarrow>
     p \<le> c \<and> c - p < encodedWidth fs \<and> columnOrigin fs ! (c - p) \<noteq> Categorical"
  using assms
proof (induction fs arbitrary: p)
  case Nil
  then show ?case by (simp add: encodedWidth_def)
next
  case (Cons kf fs)
  obtain k f where kf: "kf = (k, f)" by (cases kf)
  have IH: "c \<in> set (colIdxFrom enc fs q) \<longleftrightarrow>
     q \<le> c \<and> c - q < encodedWidth fs \<and> columnOrigin fs ! (c - q) \<noteq> Categorical" for q
    using Cons by simp
  have w: "encodedWidth ((k, f) # fs) = featureWidth f + encodedWidth fs"
    by (simp add: encodedWidth_def)
  have o: "columnOrigin ((k, f) # fs) = replicate (featureWidth f) (ftype f) @ columnOrigin fs"
    by (simp add: columnOrigin_def)
  show ?case
  proof (cases "ftype f = Categorical")
    case True
    then have e: "encoderOf enc k = valuesOf f"
      using Cons.prems by (simp add: kf)
    have fw: "featureWidth f = length (valuesOf f)"
      using True by (simp add: featureWidth_def)
    show ?thesis
      using True by (auto simp: kf e IH w o fw nth_append)
  next
    case False
    then have fw: "featureWidth f = 1"
      by (simp add: featureWidth_def)
    have nb: "ftype f = Numeric \<or> ftype f = Boolean"
      using False by (cases "ftype f") simp_all
    show ?thesis
      using False nb by (auto simp: kf IH w o fw nth_Cons')
  qed
qed

lemma colIdxFrom_distinct: "distinct (colIdxFrom enc fs p) \<and> (\<forall>c \<in> set (colIdxFrom enc fs p). p \<le> c)"
proof (induction fs arbitrary: p)
  case Nil
  then show ?case by simp
next
  case (Cons kf fs)
  obtain k f where kf: "kf = (k, f)" by (cases kf)
  show ?case
    using Cons [of "p + 1"] Cons [of "p + length (encoderOf enc k)"] by (auto simp: kf)
qed

subsection \<open>Scaling a row\<close>

lemma scaleRow_cells:
  assumes "distinct idxs" and "\<forall>c \<in> set idxs. c < length r"
  shows "length (scaleRow t stats idxs r) = length r \<and>
    (\<forall>c < length r. scaleRow t stats idxs r ! c =
       (if c \<in> set idxs then (case map_of stats c of None \<Rightarrow> r ! c
                                 | Some st \<Rightarrow> scaleValue t st (r ! c))
        else r ! c))"
  using assms
proof (induction idxs arbitrary: r)
  case Nil
  then show ?case by (simp add: scaleRow_def)
next
  case (Cons a idxs)
  define r' where "r' = (case map_of stats a of None \<Rightarrow> r
                          | Some st \<Rightarrow> setCell r a (scaleValue t st (getCell r a)))"
  have a: "a < length r" and na: "a \<notin> set idxs" and d: "distinct idxs"
    using Cons.prems by simp_all
  have len: "length r' = length r"
    using a by (simp add: r'_def setCell_def split: option.splits)
  have b: "\<forall>c \<in> set idxs. c < length r'"
    using Cons.prems(2) by (simp add: len)
  have step: "scaleRow t stats (a # idxs) r = scaleRow t stats idxs r'"
    by (simp add: scaleRow_def r'_def)
  have r'a: "r' ! a = (case map_of stats a of None \<Rightarrow> r ! a | Some st \<Rightarrow> scaleValue t st (r ! a))"
    using a by (simp add: r'_def setCell_def getCell_def split: option.splits)
  have r'c: "c \<noteq> a \<Longrightarrow> r' ! c = r ! c" for c
    using a by (simp add: r'_def setCell_def split: option.splits)
  have r'i: "c \<in> set idxs \<Longrightarrow> r' ! c = r ! c" for c
    using na by (intro r'c) auto
  show ?case
    using Cons.IH [OF d b] na by (auto simp: step len r'a r'c r'i split: option.splits)
qed

lemma fitScalers_lookup: "c \<in> set idxs \<Longrightarrow> map_of (fitScalers Xmat idxs) c = Some (fitColumn Xmat c)"
  by (induction idxs) (auto simp: fitScalers_def)

subsection \<open>What prepareMatrices stores\<close>

lemma prepareMatrices_X:
  assumes "ld_schema st = Some sch" and "ld_raw st = Some rows"
  shows "ld_X (fst (prepareMatrices st scalerType seed)) = Some (scaledMatrix scalerType sch rows)"
  by (simp add: prepareMatrices_state [OF assms])

lemma prepareMatrices_names:
  assumes "ld_schema st = Some sch" and "ld_raw st = Some rows"
    and "snd (prepareMatrices st scalerType seed) = Inr names"
  shows "names = featNamesOf sch"
  using assms(3) by (simp add: prepareMatrices_loaded [OF assms(1,2)] split: if_splits)

lemma schema_encoders:
  assumes "distinct (map fst (features sch))"
  shows "\<forall>kf \<in> set (own_entries (features sch)).
           ftype (snd kf) = Categorical \<longrightarrow> encoderOf (encodersOf sch) (fst kf) = valuesOf (snd kf)"
proof
  fix kf assume m: "kf \<in> set (own_entries (features sch))"
  obtain k f where kf: "kf = (k, f)" by (cases kf)
  show "ftype (snd kf) = Categorical \<longrightarrow> encoderOf (encodersOf sch) (fst kf) = valuesOf (snd kf)"
    using buildEncoders_categorical [OF own_entries_distinct [OF assms], of k f "[]" "[]"] m
    by (simp add: kf encodersOf_def)
qed

lemma encodedMatrix_row_length:
  assumes "distinct (map fst (features sch))" and "i < length rows"
  shows "length (encodedMatrix sch rows ! i) = encodedWidth (own_entries (features sch))"
  using assms(2) by (simp add: encodedMatrix_def encodeRow_length [OF schema_encoders [OF assms(1)]])

lemma scaledColumns_iff:
  assumes "distinct (map fst (features sch))"
  shows "c \<in> set (scaledColumns sch) \<longleftrightarrow>
     c < encodedWidth (own_entries (features sch)) \<and>
     columnOrigin (own_entries (features sch)) ! c \<noteq> Categorical"
  using colIdxFrom_iff [OF schema_encoders [OF assms], of c 0]
  by (simp add: scaledColumns_def numericColIdx_def)

lemma scaledColumns_distinct: "distinct (scaledColumns sch)"
  using colIdxFrom_distinct by (simp add: scaledColumns_def numericColIdx_def)

text \<open>Every cell of the stored matrix, in terms of the matrix before scaling.\<close>

lemma scaledMatrix_cell:
  assumes d: "distinct (map fst (features sch))" and i: "i < length rows"
  shows "length (scaledMatrix t sch rows) = length rows"
    and "length (scaledMatrix t sch rows ! i) = encodedWidth (own_entries (features sch))"
    and "c < encodedWidth (own_entries (features sch)) \<Longrightarrow>
         scaledMatrix t sch rows ! i ! c =
           (if columnOrigin (own_entries (features sch)) ! c = Categorical
            then encodedMatrix sch rows ! i ! c
            else scaleValue t (fitColumn (encodedMatrix sch rows) c) (encodedMatrix sch rows ! i ! c))"
proof -
  let ?X0 = "encodedMatrix sch rows"
  let ?W = "encodedWidth (own_entries (features sch))"
  have n: "length ?X0 = length rows"
    by (simp add: encodedMatrix_def)
  show "length (scaledMatrix t sch rows) = length rows"
    by (simp add: scaledMatrix_def applyScaling_def n)
  have len: "length (?X0 ! i) = ?W"
    by (rule encodedMatrix_row_length [OF d i])
  have b: "\<forall>c \<in> set (scaledColumns sch). c < length (?X0 ! i)"
    by (simp add: scaledColumns_iff [OF d] len)
  note cells = scaleRow_cells [OF scaledColumns_distinct b, of t "fitScalers ?X0 (scaledColumns sch)"]
  have row: "scaledMatrix t sch rows ! i =
      scaleRow t (fitScalers ?X0 (scaledColumns sch)) (scaledColumns sch) (?X0 ! i)"
    using i by (simp add: scaledMatrix_def applyScaling_def n)
  show "length (scaledMatrix t sch rows ! i) = ?W"
    using cells by (simp add: row len)
  show "scaledMatrix t sch rows ! i ! c =
           (if columnOrigin (own_entries (features sch)) ! c = Categorical
            then ?X0 ! i ! c
            else scaleValue t (fitColumn ?X0 c) (?X0 ! i ! c))"
    if c: "c < ?W"
  proof (cases "c \<in> set (scaledColumns sch)")
    case True
    then show ?thesis
      using cells c by (simp add: row len fitScalers_lookup scaledColumns_iff [OF d])
  next
    case False
    then show ?thesis
      using cells c by (simp add: row len scaledColumns_iff [OF d])
  qed
qed

text \<open>
  C3: the matrix that \<open>prepareMatrices\<close> stores has one row per raw row, every row has
  the length that the column layout of the specification gives (one column for a numeric
  or boolean feature, the number of categories for a categorical one, summed over the
  features in iteration order), and the list of feature names it returns has that length
  too. The schema is a JavaScript object, so its feature names are distinct.
\<close>

theorem encoded_width_invariant:
  assumes "ld_schema st = Some sch" and "ld_raw st = Some rows"
    and "distinct (map fst (features sch))"
  shows "ld_X (fst (prepareMatrices st scalerType seed)) = Some (scaledMatrix scalerType sch rows) \<and>
    length (scaledMatrix scalerType sch rows) = length rows \<and>
    (\<forall>r \<in> set (scaledMatrix scalerType sch rows). length r = encodedWidth (own_entries (features sch))) \<and>
    (\<forall>r \<in> set (encodedMatrix sch rows). length r = encodedWidth (own_entries (features sch))) \<and>
    length (featNamesOf sch) = encodedWidth (own_entries (features sch)) \<and>
    (\<forall>names. snd (prepareMatrices st scalerType seed) = Inr names \<longrightarrow>
       length names = encodedWidth (own_entries (features sch)))"
proof -
  let ?W = "encodedWidth (own_entries (features sch))"
  have x: "ld_X (fst (prepareMatrices st scalerType seed)) = Some (scaledMatrix scalerType sch rows)"
    by (rule prepareMatrices_X [OF assms(1,2)])
  have n: "length (scaledMatrix scalerType sch rows) = length rows"
    by (simp add: scaledMatrix_def applyScaling_def encodedMatrix_def)
  have r: "\<forall>r \<in> set (scaledMatrix scalerType sch rows). length r = ?W"
    using scaledMatrix_cell(2) [OF assms(3), of _ rows scalerType] n
    by (auto simp: in_set_conv_nth)
  have r0: "\<forall>r \<in> set (encodedMatrix sch rows). length r = ?W"
    by (simp add: encodedMatrix_def encodeRow_length [OF schema_encoders [OF assms(3)]])
  have f: "length (featNamesOf sch) = ?W"
    by (simp add: featNamesOf_def buildEncoders_names_length)
  have "length names = ?W" if "snd (prepareMatrices st scalerType seed) = Inr names" for names
    using prepareMatrices_names [OF assms(1,2) that] f by simp
  with x n r r0 f show ?thesis
    by blast
qed


subsection \<open>The statistics of a column\<close>

lemma finite_cells: "filter isFinite vs = map Fin (finiteValues vs)"
proof (induction vs)
  case Nil
  then show ?case by (simp add: finiteValues_def)
next
  case (Cons v vs)
  then show ?case by (cases v) (simp_all add: finiteValues_def)
qed

lemma foldl_min2: "foldl min2 (Fin a) (map Fin xs) = Fin (fold min xs a)"
proof (induction xs arbitrary: a)
  case Nil
  then show ?case by simp
next
  case (Cons x xs)
  have "min2 (Fin a) (Fin x) = Fin (min x a)"
    by (simp add: min2_def min_def)
  then show ?case by (simp add: Cons)
qed

lemma foldl_max2: "foldl max2 (Fin a) (map Fin xs) = Fin (fold max xs a)"
proof (induction xs arbitrary: a)
  case Nil
  then show ?case by simp
next
  case (Cons x xs)
  have "max2 (Fin a) (Fin x) = Fin (max x a)"
    by (simp add: max2_def max_def)
  then show ?case by (simp add: Cons)
qed

lemma Math_min_finite:
  assumes "xs \<noteq> []"
  shows "Math_min (map Fin xs) = Fin (Min (set xs))"
proof -
  obtain a list where xs: "xs = a # list"
    using assms by (cases xs) auto
  have "Math_min (map Fin xs) = foldl min2 (Fin a) (map Fin list)"
    by (simp add: Math_min_def min2_def xs)
  also have "\<dots> = Fin (fold min list a)"
    by (rule foldl_min2)
  also have "fold min list a = Min (set xs)"
    unfolding xs by (rule Min.set_eq_fold [symmetric])
  finally show ?thesis .
qed

lemma Math_max_finite:
  assumes "xs \<noteq> []"
  shows "Math_max (map Fin xs) = Fin (Max (set xs))"
proof -
  obtain a list where xs: "xs = a # list"
    using assms by (cases xs) auto
  have "Math_max (map Fin xs) = foldl max2 (Fin a) (map Fin list)"
    by (simp add: Math_max_def max2_def xs)
  also have "\<dots> = Fin (fold max list a)"
    by (rule foldl_max2)
  also have "fold max list a = Max (set xs)"
    unfolding xs by (rule Max.set_eq_fold [symmetric])
  finally show ?thesis .
qed

text \<open>The fitted statistics of a column with at least one finite cell.\<close>

lemma fitColumn_finite:
  assumes "finiteValues (map (\<lambda>r. getCell r c) Xmat) = xs" and "xs \<noteq> []"
  shows "fitColumn Xmat c =
     \<lparr>cs_min = Fin (Min (set xs)), cs_max = Fin (Max (set xs)),
      cs_mean = colMean xs, cs_std = colStd xs\<rparr>"
proof -
  have col: "filter isFinite (map (\<lambda>r. getCell r c) Xmat) = map Fin xs"
    using assms(1) by (simp add: finite_cells)
  have n: "max 1 (length xs) = length xs"
    using assms(2) by (cases xs) simp_all
  have m: "js_div (sumOf (map Fin xs)) (atLeastOne (length xs)) = colMean xs"
    by (simp only: sumOf_def atLeastOne_def colMean_def n)
  have s: "js_sqrt (js_div (sumSqDev (colMean xs) (map Fin xs)) (atLeastOne (length xs - 1))) = colStd xs"
    by (simp only: sumSqDev_def atLeastOne_def colStd_def)
  have "fitColumn Xmat c =
     \<lparr>cs_min = Math_min (map Fin xs), cs_max = Math_max (map Fin xs),
      cs_mean = colMean xs, cs_std = colStd xs\<rparr>"
    unfolding fitColumn_def Let_def col length_map m s ..
  then show ?thesis
    using assms(2) by (simp add: Math_min_finite Math_max_finite)
qed

lemma scaleValue_finite:
  "scaleValue t \<lparr>cs_min = mn, cs_max = mx, cs_mean = me, cs_std = sd\<rparr> (Fin v) =
     (if t = ''minmax'' then js_div (js_sub (Fin v) mn) (orElse (js_sub mx mn) (Fin 1))
      else js_div (js_sub (Fin v) me) (orElse sd (Fin 1)))"
  by (simp add: scaleValue_def Let_def)

lemma scaleValue_not_finite: "\<not> isFinite v \<Longrightarrow> scaleValue t st v = Fin 0"
  by (simp add: scaleValue_def)

subsection \<open>The scaling formula\<close>

lemma encodedMatrix_column:
  assumes "distinct (map fst (features sch))" and "c < encodedWidth (own_entries (features sch))"
  shows "map (\<lambda>r. getCell r c) (encodedMatrix sch rows) = map (\<lambda>r. r ! c) (encodedMatrix sch rows)"
proof -
  have "length r = encodedWidth (own_entries (features sch))" if "r \<in> set (encodedMatrix sch rows)" for r
    using that by (auto simp: encodedMatrix_def encodeRow_length [OF schema_encoders [OF assms(1)]])
  then show ?thesis
    using assms(2) by (simp add: getCell_def)
qed

lemma Fin_in_finiteValues: "Fin x \<in> set vs \<Longrightarrow> x \<in> set (finiteValues vs)"
  by (induction vs) (auto simp: finiteValues_def)

text \<open>
  C1: in the matrix that \<open>prepareMatrices\<close> stores, a cell of a column that comes from a
  categorical feature is the encoded cell, unchanged. In a column that comes from a numeric
  or boolean feature, a cell that is not finite becomes \<open>0\<close>, and a finite cell \<open>v\<close> becomes
  \<open>(v - min) / d\<close> with \<open>d = max - min\<close> if that is not zero and \<open>1\<close> otherwise for the
  scaler \<open>minmax\<close>, and \<open>(v - mean) / d\<close> with \<open>d = std\<close> if that is not zero and \<open>1\<close>
  otherwise for the other scaler. The statistics are those of the finite values of that
  column of the encoded matrix, over all rows: the least and the greatest value, and the
  mean and the deviation as double arithmetic gives them; the differences and the
  quotient are those of double arithmetic too.
\<close>

theorem scaling_of_cells:
  assumes "ld_schema st = Some sch" and "ld_raw st = Some rows"
    and "distinct (map fst (features sch))"
    and "i < length rows" and "c < encodedWidth (own_entries (features sch))"
  shows "ld_X (fst (prepareMatrices st scalerType seed)) = Some (scaledMatrix scalerType sch rows) \<and>
    (columnOrigin (own_entries (features sch)) ! c = Categorical \<longrightarrow>
       scaledMatrix scalerType sch rows ! i ! c = encodedMatrix sch rows ! i ! c) \<and>
    (columnOrigin (own_entries (features sch)) ! c \<noteq> Categorical \<longrightarrow>
       (\<not> isFinite (encodedMatrix sch rows ! i ! c) \<longrightarrow> scaledMatrix scalerType sch rows ! i ! c = Fin 0) \<and>
       (\<forall>v. encodedMatrix sch rows ! i ! c = Fin v \<longrightarrow>
          scaledMatrix scalerType sch rows ! i ! c =
            (if scalerType = ''minmax''
             then js_div
                    (js_sub (Fin v)
                       (Fin (Min (set (finiteValues (map (\<lambda>r. r ! c) (encodedMatrix sch rows)))))))
                    (orElse
                       (js_sub
                          (Fin (Max (set (finiteValues (map (\<lambda>r. r ! c) (encodedMatrix sch rows))))))
                          (Fin (Min (set (finiteValues (map (\<lambda>r. r ! c) (encodedMatrix sch rows)))))))
                       (Fin 1))
             else js_div
                    (js_sub (Fin v)
                       (colMean (finiteValues (map (\<lambda>r. r ! c) (encodedMatrix sch rows)))))
                    (orElse (colStd (finiteValues (map (\<lambda>r. r ! c) (encodedMatrix sch rows))))
                       (Fin 1)))))"
proof -
  let ?E = "encodedMatrix sch rows"
  let ?S = "scaledMatrix scalerType sch rows"
  let ?xs = "finiteValues (map (\<lambda>r. r ! c) ?E)"
  note cell = scaledMatrix_cell(3) [OF assms(3,4,5), of scalerType]
  have x: "ld_X (fst (prepareMatrices st scalerType seed)) = Some ?S"
    by (rule prepareMatrices_X [OF assms(1,2)])
  have cat: "?S ! i ! c = ?E ! i ! c" if "columnOrigin (own_entries (features sch)) ! c = Categorical"
    using cell that by simp
  have nf: "?S ! i ! c = Fin 0"
    if "columnOrigin (own_entries (features sch)) ! c \<noteq> Categorical" "\<not> isFinite (?E ! i ! c)"
    using cell that by (simp add: scaleValue_not_finite)
  have fin: "?S ! i ! c =
      (if scalerType = ''minmax''
       then js_div (js_sub (Fin v) (Fin (Min (set ?xs))))
              (orElse (js_sub (Fin (Max (set ?xs))) (Fin (Min (set ?xs)))) (Fin 1))
       else js_div (js_sub (Fin v) (colMean ?xs)) (orElse (colStd ?xs) (Fin 1)))"
    if o: "columnOrigin (own_entries (features sch)) ! c \<noteq> Categorical" and v: "?E ! i ! c = Fin v" for v
  proof -
    have "?E ! i \<in> set ?E"
      using assms(4) by (simp add: encodedMatrix_def)
    then have "Fin v \<in> set (map (\<lambda>r. r ! c) ?E)"
      using v by force
    then have ne: "?xs \<noteq> []"
      using Fin_in_finiteValues by fastforce
    have col: "finiteValues (map (\<lambda>r. getCell r c) ?E) = ?xs"
      by (simp only: encodedMatrix_column [OF assms(3,5)])
    show ?thesis
      using cell o by (simp only: v fitColumn_finite [OF col ne] scaleValue_finite if_False)
  qed
  from x cat nf fin show ?thesis
    by blast
qed

subsection \<open>The example data, evaluated\<close>

lemma demo_distinct: "distinct (map fst (features demoSchema))"
  by (simp add: demoSchema_def)

lemma demo_encoders: "encodersOf demoSchema = [(''road_type'', [''urban'', ''rural''])]"
  unfolding encodersOf_def demo_entries by (simp add: demoSchema_def valuesOf_def Let_def)

lemma demo_names: "featNamesOf demoSchema = [''road_type__urban'', ''road_type__rural'', ''num_lanes'']"
  unfolding featNamesOf_def demo_entries
  by (simp add: demoSchema_def valuesOf_def Let_def encoderOf_def obj_get_def)

lemma demo_width: "encodedWidth (features demoSchema) = 3"
  by (simp add: encodedWidth_def demoSchema_def featureWidth_def valuesOf_def)

lemma demo_origin: "columnOrigin (features demoSchema) = [Categorical, Categorical, Numeric]"
  by (simp add: columnOrigin_def demoSchema_def featureWidth_def valuesOf_def)

lemma demo_encoded: "encodedMatrix demoSchema demoRows = [[Fin 1, Fin 0, Fin 2], [Fin 0, Fin 1, Fin 1]]"
proof -
  note n = toNumberMaybe_2 toNumberMaybe_1
  show ?thesis
    unfolding encodedMatrix_def demo_encoders demo_entries
    by (simp add: demoSchema_def demoRows_def encodeRow_def encodeFeature_def encoderOf_def
        obj_get_def String_of_def n)
qed

lemma toDouble_one: "toDouble 1 = Fin 1"
  using toDouble_of_int [of 1] by simp

theorem scaling_of_cells_witness:
  "ld_schema demoLoader = Some demoSchema \<and> ld_raw demoLoader = Some demoRows \<and>
   distinct (map fst (features demoSchema)) \<and>
   0 < length demoRows \<and> 2 < encodedWidth (own_entries (features demoSchema)) \<and>
   columnOrigin (own_entries (features demoSchema)) ! 2 = Numeric \<and>
   encodedMatrix demoSchema demoRows ! 0 ! 2 = Fin 2 \<and>
   finiteValues (map (\<lambda>r. r ! 2) (encodedMatrix demoSchema demoRows)) = [2, 1] \<and>
   scaledMatrix ''minmax'' demoSchema demoRows ! 0 ! 2 = Fin 1 \<and>
   ld_X (fst (prepareMatrices demoLoader ''minmax'' (Fin 2025))) =
     Some (scaledMatrix ''minmax'' demoSchema demoRows)"
proof -
  have l: "0 < length demoRows"
    by (simp add: demoRows_def)
  have w: "2 < encodedWidth (own_entries (features demoSchema))"
    by (simp add: demo_entries demo_width)
  have fv: "finiteValues (map (\<lambda>r. r ! 2) (encodedMatrix demoSchema demoRows)) = [2, 1]"
    by (simp add: demo_encoded finiteValues_def)
  have o: "columnOrigin (own_entries (features demoSchema)) ! 2 = Numeric"
    by (simp add: demo_entries demo_origin)
  have e: "encodedMatrix demoSchema demoRows ! 0 ! 2 = Fin 2"
    by (simp add: demo_encoded)
  note t = scaling_of_cells [OF demoLoader_fields demo_distinct l w, of "''minmax''" "Fin 2025"]
  have x: "ld_X (fst (prepareMatrices demoLoader ''minmax'' (Fin 2025))) =
     Some (scaledMatrix ''minmax'' demoSchema demoRows)"
    using t by (elim conjE)
  have "scaledMatrix ''minmax'' demoSchema demoRows ! 0 ! 2 =
      js_div (js_sub (Fin 2) (Fin (Min (set [2, 1])))) (orElse (js_sub (Fin (Max (set [2, 1]))) (Fin (Min (set [2, 1])))) (Fin 1))"
    using t o e by (simp add: fv)
  then have s: "scaledMatrix ''minmax'' demoSchema demoRows ! 0 ! 2 = Fin 1"
    by (simp add: js_sub_def orElse_def toDouble_one)
  from demoLoader_fields demo_distinct l w o e fv s x show ?thesis
    by blast
qed

theorem encoded_width_invariant_witness:
  "ld_schema demoLoader = Some demoSchema \<and> ld_raw demoLoader = Some demoRows \<and>
   distinct (map fst (features demoSchema)) \<and>
   encodedWidth (own_entries (features demoSchema)) = 3 \<and>
   featNamesOf demoSchema = [''road_type__urban'', ''road_type__rural'', ''num_lanes''] \<and>
   encodedMatrix demoSchema demoRows = [[Fin 1, Fin 0, Fin 2], [Fin 0, Fin 1, Fin 1]] \<and>
   length (scaledMatrix ''minmax'' demoSchema demoRows) = 2 \<and>
   ld_X (fst (prepareMatrices demoLoader ''minmax'' (Fin 2025))) = Some (scaledMatrix ''minmax'' demoSchema demoRows)"
proof -
  have l: "length demoRows = 2"
    by (simp add: demoRows_def)
  show ?thesis
    using encoded_width_invariant [OF demoLoader_fields demo_distinct, of "''minmax''" "Fin 2025"]
    by (simp add: demoLoader_fields demo_distinct demo_entries demo_width demo_names demo_encoded l)
qed


subsection \<open>A failing prepareMatrices\<close>

text \<open>
  The three ways in which the method fails on a loaded data set, and the loader that each
  leaves behind.
\<close>

lemma prepareMatricesOn_loaded:
  assumes "ld_schema st = Some sch" and "ld_raw st = Some rows"
  shows "prepareMatricesOn maxArgs st scalerType seed =
     (if pushFails maxArgs sch rows
      then (st\<lparr>ld_encoders := encodersOf sch\<rparr>, Inl RangeError)
      else if fittedColumns maxArgs sch rows \<noteq> scaledColumns sch
      then (st\<lparr>ld_encoders := encodersOf sch,
               ld_scalers := \<lparr>sc_type = Some scalerType,
                              sc_stats = fitScalers (encodedMatrix sch rows)
                                           (fittedColumns maxArgs sch rows)\<rparr>\<rparr>,
            Inl RangeError)
      else prepareMatrices st scalerType seed)"
proof -
  obtain enc names where be: "buildEncoders (own_entries (features sch)) ([], []) = (enc, names)"
    by (cases "buildEncoders (own_entries (features sch)) ([], [])")
  have enc: "encodersOf sch = enc" and names: "featNamesOf sch = names"
    by (simp_all add: encodersOf_def featNamesOf_def be)
  have E: "encodedMatrix sch rows = map (encodeRow enc (own_entries (features sch))) rows"
    by (simp add: encodedMatrix_def enc)
  have C: "scaledColumns sch = numericColIdx enc (own_entries (features sch))"
    by (simp add: scaledColumns_def enc)
  have P: "pushFails maxArgs sch rows \<longleftrightarrow>
      rows \<noteq> [] \<and> (\<exists>kf \<in> set (own_entries (features sch)).
         ftype (snd kf) = Categorical \<and> tooMany maxArgs (encoderOf enc (fst kf)))"
    by (simp add: pushFails_def enc)
  show ?thesis
  proof (cases "pushFails maxArgs sch rows")
    case True
    then show ?thesis
      using assms True [unfolded P] by (simp add: prepareMatricesOn_def be enc)
  next
    case False
    note np = False [unfolded P]
    show ?thesis
    proof (cases "fittedColumns maxArgs sch rows = scaledColumns sch")
      case ne: False
      have "takeWhile (\<lambda>c. \<not> tooMany maxArgs (filter isFinite (map (\<lambda>r. getCell r c)
              (map (encodeRow enc (own_entries (features sch))) rows))))
              (numericColIdx enc (own_entries (features sch))) \<noteq>
            numericColIdx enc (own_entries (features sch))"
        using ne unfolding fittedColumns_def E C .
      then show ?thesis
        using assms np False ne
        by (auto simp add: prepareMatricesOn_def be Let_def fittedColumns_def E C enc)
    next
      case True
      have tw: "takeWhile (\<lambda>c. \<not> tooMany maxArgs (filter isFinite (map (\<lambda>r. getCell r c)
              (map (encodeRow enc (own_entries (features sch))) rows))))
              (numericColIdx enc (own_entries (features sch))) =
            numericColIdx enc (own_entries (features sch))"
        using True unfolding fittedColumns_def E C .
      have L: "prepareMatricesOn maxArgs st scalerType seed =
          (st\<lparr>ld_encoders := encodersOf sch,
              ld_scalers := \<lparr>sc_type = Some scalerType,
                             sc_stats = fitScalers (encodedMatrix sch rows) (scaledColumns sch)\<rparr>,
              ld_X := Some (scaledMatrix scalerType sch rows),
              ld_y := Some (map (\<lambda>r. [Number_of (obj_get r (target sch))]) rows),
              ld_split := splitIndices (length rows) seed\<rparr>,
           if ld_log st (preparedMessage (length rows)
                           (length (case encodedMatrix sch rows of [] \<Rightarrow> [] | r0 # _ \<Rightarrow> r0))
                           (splitIndices (length rows) seed))
           then Inr (featNamesOf sch) else Inl Thrown)"
        using assms np tw
        by (auto simp add: prepareMatricesOn_def be Let_def scaledMatrix_def E C enc names
            takeWhile_eq_all_conv [THEN iffD2])
      show ?thesis
        using False True by (simp only: L prepareMatrices_loaded [OF assms] if_False simp_thms)
    qed
  qed
qed

text \<open>Where the bound of the engine is not met, the method is \<open>prepareMatrices\<close>.\<close>

lemma prepareMatricesOn_within_bound:
  assumes "snd (prepareMatricesOn maxArgs st scalerType seed) \<noteq> Inl RangeError"
  shows "prepareMatricesOn maxArgs st scalerType seed = prepareMatrices st scalerType seed"
proof (cases "ld_schema st")
  case None
  then show ?thesis
    by (simp add: prepareMatrices_def prepareMatricesOn_def)
next
  case (Some sch)
  show ?thesis
  proof (cases "ld_raw st")
    case None
    then show ?thesis
      using Some by (simp add: prepareMatrices_def prepareMatricesOn_def Let_def split: prod.splits)
  next
    case (Some rows)
    show ?thesis
      using assms
      by (simp add: prepareMatricesOn_loaded [OF \<open>ld_schema st = Some sch\<close> Some] split: if_splits)
  qed
qed

lemma inferSchemaOn_within_bound:
  assumes "snd (inferSchemaOn maxArgs st) \<noteq> Inl RangeError"
  shows "inferSchemaOn maxArgs st = inferSchema st"
proof (cases "ld_raw st")
  case None
  then show ?thesis
    by (simp add: inferSchema_def inferSchemaOn_def)
next
  case (Some rows)
  show ?thesis
  proof (cases "rows = [] \<or> obj_get (hd rows) targetName = None")
    case True
    then show ?thesis
      using Some by (simp add: inferSchema_def inferSchemaOn_def)
  next
    case False
    have c: "inferSchemaOn m st =
        (if \<exists>kf \<in> set (inferFeatures rows targetName).
              ftype (snd kf) = Numeric \<and>
              tooMany m (filter isFinite (map (\<lambda>r. toNumberMaybe (obj_get r (fst kf))) rows))
         then (st, Inl RangeError)
         else (let sch = \<lparr>features = inferFeatures rows targetName, target = targetName\<rparr>;
                   st' = st\<lparr>ld_schema := Some sch\<rparr>
               in if ld_log st' (schemaMessage sch) then (st', Inr ()) else (st', Inl Thrown)))" for m
      using Some False by (simp only: inferSchemaOn_def option.case if_False)
    have n: "\<not> (\<exists>kf \<in> set (inferFeatures rows targetName).
              ftype (snd kf) = Numeric \<and>
              tooMany None (filter isFinite (map (\<lambda>r. toNumberMaybe (obj_get r (fst kf))) rows)))"
      by (simp add: tooMany_def)
    show ?thesis
    proof (cases "\<exists>kf \<in> set (inferFeatures rows targetName).
                    ftype (snd kf) = Numeric \<and>
                    tooMany maxArgs (filter isFinite (map (\<lambda>r. toNumberMaybe (obj_get r (fst kf))) rows))")
      case True
      then have "inferSchemaOn maxArgs st = (st, Inl RangeError)"
        unfolding c by (rule if_P)
      with assms show ?thesis
        by simp
    next
      case nb: False
      show ?thesis
        unfolding inferSchema_def c by (simp only: if_not_P [OF nb] if_not_P [OF n])
    qed
  qed
qed

text \<open>
  C6 as the specification states it. The example loader holds a data set prepared with
  the \<open>minmax\<close> scaler; its log callback now throws. A second \<open>prepareMatrices\<close>, for the
  \<open>standard\<close> scaler, throws at its last statement, the call of the log, and the loader
  is left with the new scaler statistics, not with those it had before the call.
\<close>

theorem failed_prepare_replaces_state:
  "snd (prepareMatrices preparedLoader ''standard'' (Fin 2025)) = Inl Thrown \<and>
   sc_type (ld_scalers preparedLoader) = Some ''minmax'' \<and>
   sc_type (ld_scalers (fst (prepareMatrices preparedLoader ''standard'' (Fin 2025)))) = Some ''standard''"
proof -
  have s: "ld_schema preparedLoader = Some demoSchema" and r: "ld_raw preparedLoader = Some demoRows"
    and l: "ld_log preparedLoader = (\<lambda>msg. False)"
    by (simp_all add: preparedLoader_def prepareMatrices_state [OF demoLoader_fields] demoLoader_fields)
  have before: "sc_type (ld_scalers preparedLoader) = Some ''minmax''"
    by (simp add: preparedLoader_def prepareMatrices_state [OF demoLoader_fields])
  have after: "sc_type (ld_scalers (fst (prepareMatrices preparedLoader ''standard'' (Fin 2025)))) = Some ''standard''"
    by (simp add: prepareMatrices_state [OF s r])
  have "snd (prepareMatrices preparedLoader ''standard'' (Fin 2025)) = Inl Thrown"
    by (simp add: prepareMatrices_loaded [OF s r] l)
  with before after show ?thesis
    by simp
qed

text \<open>
  C6, amended: \<open>prepareMatrices\<close> assigns the fields of the loader as it goes and does
  not restore them, so a call that fails on a loaded data set (schema and rows present)
  leaves behind what it has assigned up to the throw, and the encoder table is the new one
  in every case. There are three throws. The \<open>RangeError\<close> of \<open>row.push(...one)\<close>, for a
  categorical feature with more categories than the engine takes as arguments, comes
  before any other assignment: scaler statistics, \<open>X\<close>, \<open>y\<close> and split are as before. The
  \<open>RangeError\<close> of \<open>Math.min(...col)\<close>, for a scaled column with more finite cells than
  that, comes after \<open>this.scalers\<close> has been replaced: the scalers hold the new type and the
  statistics of the columns fitted so far, and \<open>X\<close>, \<open>y\<close> and split are as before. The throw
  of the log callback comes last: all five are the new ones.
\<close>

theorem failed_prepare_leaves_assignments:
  assumes "ld_schema st = Some sch" and "ld_raw st = Some rows"
    and "snd (prepareMatricesOn maxArgs st scalerType seed) = Inl e"
  shows "ld_encoders (fst (prepareMatricesOn maxArgs st scalerType seed)) = encodersOf sch \<and>
    (e = RangeError \<or> e = Thrown) \<and>
    (e = RangeError \<and> pushFails maxArgs sch rows \<longrightarrow>
       fst (prepareMatricesOn maxArgs st scalerType seed) = st\<lparr>ld_encoders := encodersOf sch\<rparr>) \<and>
    (e = RangeError \<and> \<not> pushFails maxArgs sch rows \<longrightarrow>
       fittedColumns maxArgs sch rows \<noteq> scaledColumns sch \<and>
       fst (prepareMatricesOn maxArgs st scalerType seed) =
         st\<lparr>ld_encoders := encodersOf sch,
            ld_scalers := \<lparr>sc_type = Some scalerType,
                           sc_stats = fitScalers (encodedMatrix sch rows)
                                        (fittedColumns maxArgs sch rows)\<rparr>\<rparr>) \<and>
    (e = RangeError \<longrightarrow>
       ld_X (fst (prepareMatricesOn maxArgs st scalerType seed)) = ld_X st \<and>
       ld_y (fst (prepareMatricesOn maxArgs st scalerType seed)) = ld_y st \<and>
       ld_split (fst (prepareMatricesOn maxArgs st scalerType seed)) = ld_split st) \<and>
    (e = Thrown \<longrightarrow>
       \<not> pushFails maxArgs sch rows \<and> fittedColumns maxArgs sch rows = scaledColumns sch \<and>
       fst (prepareMatricesOn maxArgs st scalerType seed) =
         st\<lparr>ld_encoders := encodersOf sch,
            ld_scalers := \<lparr>sc_type = Some scalerType,
                           sc_stats = fitScalers (encodedMatrix sch rows) (scaledColumns sch)\<rparr>,
            ld_X := Some (scaledMatrix scalerType sch rows),
            ld_y := Some (map (\<lambda>r. [Number_of (obj_get r (target sch))]) rows),
            ld_split := splitIndices (length rows) seed\<rparr>)"
proof (cases "pushFails maxArgs sch rows")
  case True
  then show ?thesis
    using assms(3) by (simp add: prepareMatricesOn_loaded [OF assms(1,2)])
next
  case False
  show ?thesis
  proof (cases "fittedColumns maxArgs sch rows = scaledColumns sch")
    case True
    then show ?thesis
      using assms(3) False
      by (simp add: prepareMatricesOn_loaded [OF assms(1,2)] prepareMatrices_loaded [OF assms(1,2)]
          split: if_splits)
  next
    case ne: False
    then show ?thesis
      using assms(3) False by (simp add: prepareMatricesOn_loaded [OF assms(1,2)])
  qed
qed

text \<open>The example loaders on an engine that takes one argument in a spread call.\<close>

lemma preparedLoader_fields:
  "ld_schema preparedLoader = Some demoSchema" "ld_raw preparedLoader = Some demoRows"
  "ld_log preparedLoader = (\<lambda>msg. False)"
  by (simp_all add: preparedLoader_def prepareMatrices_state [OF demoLoader_fields] demoLoader_fields)

lemma demo_pushFails: "pushFails (Some 1) demoSchema demoRows"
  unfolding pushFails_def demo_entries demo_encoders
  by (simp add: demoSchema_def demoRows_def tooMany_def encoderOf_def obj_get_def)

lemma lanes_entries: "own_entries (features lanesSchema) = features lanesSchema"
  by (simp add: own_entries_def lanesSchema_def isArrayIndex_def isDigit_def)

lemma lanes_encoders: "encodersOf lanesSchema = []"
  unfolding encodersOf_def lanes_entries by (simp add: lanesSchema_def)

lemma lanes_columns: "scaledColumns lanesSchema = [0]"
  unfolding scaledColumns_def lanes_encoders lanes_entries
  by (simp add: lanesSchema_def numericColIdx_def)

lemma lanes_encoded: "encodedMatrix lanesSchema demoRows = [[Fin 2], [Fin 1]]"
  unfolding encodedMatrix_def lanes_encoders lanes_entries
  by (simp add: lanesSchema_def demoRows_def encodeRow_def encodeFeature_def obj_get_def
      toNumberMaybe_2 toNumberMaybe_1)

lemma lanes_pushFails: "\<not> pushFails (Some 1) lanesSchema demoRows"
  unfolding pushFails_def lanes_entries by (simp add: lanesSchema_def)

lemma lanes_fitted: "fittedColumns (Some 1) lanesSchema demoRows = []"
  unfolding fittedColumns_def lanes_columns lanes_encoded
  by (simp add: tooMany_def getCell_def)

lemma lanesLoader_fields:
  "ld_schema lanesLoader = Some lanesSchema" "ld_raw lanesLoader = Some demoRows"
  "sc_type (ld_scalers lanesLoader) = Some ''minmax''"
  "ld_X lanesLoader = Some (scaledMatrix ''minmax'' lanesSchema demoRows)"
proof -
  let ?st = "(newLoader (\<lambda>msg. True))\<lparr>ld_raw := Some demoRows, ld_schema := Some lanesSchema\<rparr>"
  have s: "ld_schema ?st = Some lanesSchema" and r: "ld_raw ?st = Some demoRows"
    by (simp_all add: newLoader_def)
  show "ld_schema lanesLoader = Some lanesSchema" "ld_raw lanesLoader = Some demoRows"
    "sc_type (ld_scalers lanesLoader) = Some ''minmax''"
    "ld_X lanesLoader = Some (scaledMatrix ''minmax'' lanesSchema demoRows)"
    by (simp_all add: lanesLoader_def prepareMatrices_state [OF s r] s r)
qed

theorem failed_prepare_leaves_assignments_witness:
  "ld_schema lanesLoader = Some lanesSchema \<and> ld_raw lanesLoader = Some demoRows \<and>
   snd (prepareMatricesOn (Some 1) lanesLoader ''standard'' (Fin 2025)) = Inl RangeError \<and>
   \<not> pushFails (Some 1) lanesSchema demoRows \<and>
   fittedColumns (Some 1) lanesSchema demoRows = [] \<and> scaledColumns lanesSchema = [0] \<and>
   sc_type (ld_scalers lanesLoader) = Some ''minmax'' \<and>
   ld_scalers (fst (prepareMatricesOn (Some 1) lanesLoader ''standard'' (Fin 2025))) =
     \<lparr>sc_type = Some ''standard'', sc_stats = []\<rparr> \<and>
   ld_X (fst (prepareMatricesOn (Some 1) lanesLoader ''standard'' (Fin 2025))) =
     Some (scaledMatrix ''minmax'' lanesSchema demoRows) \<and>
   ld_schema preparedLoader = Some demoSchema \<and> ld_raw preparedLoader = Some demoRows \<and>
   snd (prepareMatricesOn (Some 1) preparedLoader ''standard'' (Fin 2025)) = Inl RangeError \<and>
   pushFails (Some 1) demoSchema demoRows \<and>
   fst (prepareMatricesOn (Some 1) preparedLoader ''standard'' (Fin 2025)) =
     preparedLoader\<lparr>ld_encoders := [(''road_type'', [''urban'', ''rural''])]\<rparr> \<and>
   snd (prepareMatricesOn None preparedLoader ''standard'' (Fin 2025)) = Inl Thrown \<and>
   sc_type (ld_scalers (fst (prepareMatricesOn None preparedLoader ''standard'' (Fin 2025)))) =
     Some ''standard''"
proof -
  note ls = lanesLoader_fields(1) and lr = lanesLoader_fields(2)
  note ps = preparedLoader_fields(1) and pr = preparedLoader_fields(2)
  have a: "snd (prepareMatricesOn (Some 1) lanesLoader ''standard'' (Fin 2025)) = Inl RangeError"
    using lanes_pushFails lanes_fitted lanes_columns
    by (simp add: prepareMatricesOn_loaded [OF ls lr])
  note ta = failed_prepare_leaves_assignments [OF ls lr a]
  have a1: "ld_scalers (fst (prepareMatricesOn (Some 1) lanesLoader ''standard'' (Fin 2025))) =
     \<lparr>sc_type = Some ''standard'', sc_stats = []\<rparr>"
    using ta lanes_pushFails lanes_fitted by (simp add: fitScalers_def)
  have a2: "ld_X (fst (prepareMatricesOn (Some 1) lanesLoader ''standard'' (Fin 2025))) =
     Some (scaledMatrix ''minmax'' lanesSchema demoRows)"
    using ta by (simp add: lanesLoader_fields(4))
  have b: "snd (prepareMatricesOn (Some 1) preparedLoader ''standard'' (Fin 2025)) = Inl RangeError"
    using demo_pushFails by (simp add: prepareMatricesOn_loaded [OF ps pr])
  note tb = failed_prepare_leaves_assignments [OF ps pr b]
  have b1: "fst (prepareMatricesOn (Some 1) preparedLoader ''standard'' (Fin 2025)) =
     preparedLoader\<lparr>ld_encoders := [(''road_type'', [''urban'', ''rural''])]\<rparr>"
    using tb demo_pushFails by (simp add: demo_encoders)
  have c: "snd (prepareMatricesOn None preparedLoader ''standard'' (Fin 2025)) = Inl Thrown"
    unfolding prepareMatrices_def [symmetric]
    by (simp add: prepareMatrices_loaded [OF ps pr] preparedLoader_fields(3))
  note tc = failed_prepare_leaves_assignments [OF ps pr c]
  have c1: "sc_type (ld_scalers (fst (prepareMatricesOn None preparedLoader ''standard'' (Fin 2025)))) =
     Some ''standard''"
    using tc by simp
  from ls lr a lanes_pushFails lanes_fitted lanes_columns lanesLoader_fields(3) a1 a2 ps pr b
    demo_pushFails b1 c c1
  show ?thesis
    by blast
qed


subsection \<open>Schema inference\<close>

lemma uniqueOf_acc:
  "set (foldl (\<lambda>acc x. if x \<in> set acc then acc else acc @ [x]) acc xs) = set acc \<union> set xs \<and>
   (distinct acc \<longrightarrow> distinct (foldl (\<lambda>acc x. if x \<in> set acc then acc else acc @ [x]) acc xs))"
  by (induction xs arbitrary: acc) auto

lemma uniqueOf_set: "set (uniqueOf xs) = set xs"
  using uniqueOf_acc [of "[]" xs] by (simp add: uniqueOf_def)

lemma uniqueOf_distinct: "distinct (uniqueOf xs)"
  using uniqueOf_acc [of "[]" xs] by (simp add: uniqueOf_def)

lemma uniqueOf_length: "length (uniqueOf xs) = card (set xs)"
  using distinct_card [OF uniqueOf_distinct, of xs] by (simp add: uniqueOf_set)

lemma sniffType_unknown:
  assumes "col \<notin> set knownCategoricals" and "col \<notin> set knownNumeric"
  shows "sniffType rows col =
     (if card (set (map String_of (sampleVals rows col))) \<le> 10 then Categorical else Numeric)"
  using assms by (simp add: sniffType_def Let_def uniqueOf_length)

text \<open>The features object after the first loop holds, for each column, its sniffed type.\<close>

lemma obj_put_entries: "set (obj_put ps k v) \<subseteq> insert (k, v) (set ps)"
  by (induction ps k v rule: obj_put.induct) auto

lemma fold_put_cols_keys:
  "fst ` set (fold (\<lambda>c fs. obj_put fs c (g c)) cols acc) = fst ` set acc \<union> set cols"
  by (induction cols arbitrary: acc) (simp_all add: keys_obj_put)

lemma fold_put_cols_distinct:
  "distinct (map fst acc) \<Longrightarrow> distinct (map fst (fold (\<lambda>c fs. obj_put fs c (g c)) cols acc))"
  by (induction cols arbitrary: acc) (simp_all add: distinct_obj_put)

lemma fold_put_cols_inv:
  "\<forall>kv \<in> set acc. snd kv = g (fst kv) \<Longrightarrow>
   \<forall>kv \<in> set (fold (\<lambda>c fs. obj_put fs c (g c)) cols acc). snd kv = g (fst kv)"
proof (induction cols arbitrary: acc)
  case Nil
  then show ?case by simp
next
  case (Cons c cols)
  have "\<forall>kv \<in> set (obj_put acc c (g c)). snd kv = g (fst kv)"
    using Cons.prems obj_put_entries [of acc c "g c"] by auto
  from Cons.IH [OF this] show ?case by simp
qed

lemma fold_put_cols_entry:
  assumes "(k, v) \<in> set (fold (\<lambda>c fs. obj_put fs c (g c)) cols [])"
  shows "v = g k" and "k \<in> set cols"
proof -
  have inv: "\<forall>kv \<in> set (fold (\<lambda>c fs. obj_put fs c (g c)) cols []). snd kv = g (fst kv)"
    by (rule fold_put_cols_inv) simp
  have keys: "fst ` set (fold (\<lambda>c fs. obj_put fs c (g c)) cols []) = set cols"
    by (simp add: fold_put_cols_keys)
  have "snd (k, v) = g (fst (k, v))"
    using inv assms by (rule bspec)
  then show "v = g k"
    by simp
  have "fst (k, v) \<in> fst ` set (fold (\<lambda>c fs. obj_put fs c (g c)) cols [])"
    using assms by (rule imageI)
  then show "k \<in> set cols"
    unfolding keys by simp
qed

lemma inferFeatures_set:
  "set (inferFeatures rows tgt) =
     (\<lambda>kf. (fst kf, refineFeature rows (fst kf) (snd kf))) `
       set (fold (\<lambda>col fs. obj_put fs col
                   \<lparr>fname = col, ftype = sniffType rows col, fstats = None, fvalues = None\<rparr>)
                 (filter (\<lambda>k. k \<noteq> tgt) (map fst (own_entries (hd rows)))) [])"
  by (simp add: inferFeatures_def Let_def own_entries_set case_prod_beta)

lemma inferFeatures_entry:
  assumes "(k, f) \<in> set (inferFeatures rows tgt)"
  shows "f = refineFeature rows k \<lparr>fname = k, ftype = sniffType rows k, fstats = None, fvalues = None\<rparr>"
    and "k \<in> fst ` set (hd rows)" and "k \<noteq> tgt"
proof -
  from assms obtain kf0
    where m: "kf0 \<in> set (fold (\<lambda>col fs. obj_put fs col
                   \<lparr>fname = col, ftype = sniffType rows col, fstats = None, fvalues = None\<rparr>)
                 (filter (\<lambda>k. k \<noteq> tgt) (map fst (own_entries (hd rows)))) [])"
      and e: "(k, f) = (fst kf0, refineFeature rows (fst kf0) (snd kf0))"
    unfolding inferFeatures_set by (rule imageE)
  from e have k: "fst kf0 = k" and f: "f = refineFeature rows k (snd kf0)"
    by simp_all
  from m have m': "(k, snd kf0) \<in> set (fold (\<lambda>col fs. obj_put fs col
                   \<lparr>fname = col, ftype = sniffType rows col, fstats = None, fvalues = None\<rparr>)
                 (filter (\<lambda>k. k \<noteq> tgt) (map fst (own_entries (hd rows)))) [])"
    by (simp add: k [symmetric])
  note ent = fold_put_cols_entry [OF m']
  show "f = refineFeature rows k \<lparr>fname = k, ftype = sniffType rows k, fstats = None, fvalues = None\<rparr>"
    by (simp only: f ent(1))
  from ent(2) show "k \<in> fst ` set (hd rows)" and "k \<noteq> tgt"
    using own_entries_set [of "hd rows"] by auto
qed

lemma inferFeatures_distinct: "distinct (map fst (inferFeatures rows tgt))"
proof -
  let ?g = "\<lambda>c. \<lparr>fname = c, ftype = sniffType rows c, fstats = None, fvalues = None\<rparr>"
  let ?cols = "filter (\<lambda>k. k \<noteq> tgt) (map fst (own_entries (hd rows)))"
  let ?feats = "fold (\<lambda>col fs. obj_put fs col (?g col)) ?cols []"
  have "distinct (map fst ?feats)"
    by (rule fold_put_cols_distinct) simp
  then have d: "distinct (map fst (own_entries ?feats))"
    by (rule own_entries_distinct)
  have e: "map fst (inferFeatures rows tgt) = map fst (own_entries ?feats)"
    by (simp add: inferFeatures_def Let_def case_prod_beta comp_def)
  show ?thesis
    unfolding e by (rule d)
qed

lemma inferFeatures_has_column:
  assumes "k \<in> fst ` set (hd rows)" and "k \<noteq> tgt"
  shows "\<exists>f. (k, f) \<in> set (inferFeatures rows tgt)"
proof -
  let ?g = "\<lambda>c. \<lparr>fname = c, ftype = sniffType rows c, fstats = None, fvalues = None\<rparr>"
  let ?cols = "filter (\<lambda>k. k \<noteq> tgt) (map fst (own_entries (hd rows)))"
  let ?feats = "fold (\<lambda>col fs. obj_put fs col (?g col)) ?cols []"
  have "k \<in> set ?cols"
    using assms by (auto simp: own_entries_set)
  moreover have "fst ` set ?feats = set ?cols"
    by (simp add: fold_put_cols_keys)
  ultimately have "k \<in> fst ` set ?feats"
    by simp
  then obtain f0 where f0: "(k, f0) \<in> set ?feats"
    by fastforce
  have "set (inferFeatures rows tgt) = (\<lambda>(k, f). (k, refineFeature rows k f)) ` set ?feats"
    by (simp add: inferFeatures_def Let_def own_entries_set)
  have "(\<lambda>(k, f). (k, refineFeature rows k f)) (k, f0) \<in> set (inferFeatures rows tgt)"
    unfolding \<open>set (inferFeatures rows tgt) = _\<close> using f0 by (rule imageI)
  then have "(k, refineFeature rows k f0) \<in> set (inferFeatures rows tgt)"
    by simp
  then show ?thesis ..
qed

lemma refineFeature_numeric: "ftype (refineFeature rows k f) = Numeric \<longleftrightarrow> ftype f = Numeric"
  by (simp add: refineFeature_def Let_def)

text \<open>
  C4: for a column that is in neither name list, the sniff looks at the first
  \<open>min(5000, N)\<close> rows; the column is categorical whenever the sample has at most ten
  distinct string values, also when more than nine tenths of the sample parse as finite
  numbers, and it is numeric when more than nine tenths parse and the distinct values are
  more than ten (in fact whenever they are more than ten, numeric being the default).
  The type in the inferred schema is numeric exactly when the sniffed type is.
\<close>

theorem sniff_classification:
  assumes "col \<notin> set knownCategoricals" and "col \<notin> set knownNumeric"
  shows "sampleVals rows col = map (\<lambda>r. obj_get r col) (take (min 5000 (length rows)) rows) \<and>
    (card (set (map String_of (sampleVals rows col))) \<le> 10 \<longrightarrow> sniffType rows col = Categorical) \<and>
    (10 < card (set (map String_of (sampleVals rows col))) \<and>
     9 / 10 < real (length (filter (\<lambda>v. isFinite (Number_of v)) (sampleVals rows col)))
                / real (length (sampleVals rows col)) \<longrightarrow> sniffType rows col = Numeric) \<and>
    (10 < card (set (map String_of (sampleVals rows col))) \<longrightarrow> sniffType rows col = Numeric) \<and>
    (\<forall>f. (col, f) \<in> set (inferFeatures rows targetName) \<longrightarrow>
       (ftype f = Numeric \<longleftrightarrow> sniffType rows col = Numeric))"
proof -
  have "ftype f = Numeric \<longleftrightarrow> sniffType rows col = Numeric"
    if "(col, f) \<in> set (inferFeatures rows targetName)" for f
    using inferFeatures_entry(1) [OF that] by (simp add: refineFeature_numeric)
  then show ?thesis
    by (simp add: sniffType_unknown [OF assms] sampleVals_def)
qed

theorem sniff_classification_witness:
  "''flag'' \<notin> set knownCategoricals \<and> ''flag'' \<notin> set knownNumeric \<and>
   sampleVals flagRows ''flag'' = [Some ''true'', Some ''false''] \<and>
   card (set (map String_of (sampleVals flagRows ''flag''))) = 2 \<and>
   sniffType flagRows ''flag'' = Categorical"
proof -
  have k: "''flag'' \<notin> set knownCategoricals" "''flag'' \<notin> set knownNumeric"
    by (simp_all add: knownCategoricals_def knownNumeric_def)
  have v: "sampleVals flagRows ''flag'' = [Some ''true'', Some ''false'']"
    by (simp add: sampleVals_def flagRows_def obj_get_def)
  have c: "card (set (map String_of (sampleVals flagRows ''flag''))) = 2"
    by (simp add: v String_of_def)
  have "card (set (map String_of (sampleVals flagRows ''flag''))) \<le> 10"
    by (simp only: c)
  with sniff_classification [OF k, of flagRows] have "sniffType flagRows ''flag'' = Categorical"
    by blast
  with k v c show ?thesis
    by (simp only: simp_thms)
qed

subsection \<open>Truth values in lower case\<close>

lemma inferSchema_schema:
  assumes "ld_raw st = Some rows" and "rows \<noteq> []" and "obj_get (hd rows) targetName \<noteq> None"
  shows "ld_schema (fst (inferSchema st)) = Some (inferredSchema rows)"
    and "ld_raw (fst (inferSchema st)) = Some rows"
  using assms
  by (auto simp: inferSchema_def inferSchemaOn_def tooMany_def inferredSchema_def Let_def)

lemma map_of_inferFeatures:
  assumes "k \<in> fst ` set (hd rows)" and "k \<noteq> tgt"
  shows "map_of (inferFeatures rows tgt) k =
     Some (refineFeature rows k \<lparr>fname = k, ftype = sniffType rows k, fstats = None, fvalues = None\<rparr>)"
proof -
  obtain f where f: "(k, f) \<in> set (inferFeatures rows tgt)"
    using inferFeatures_has_column [OF assms] ..
  then have "map_of (inferFeatures rows tgt) k = Some f"
    using inferFeatures_distinct by (simp add: map_of_eq_Some_iff)
  then show ?thesis
    using inferFeatures_entry(1) [OF f] by simp
qed

lemma observed_all_true_false:
  assumes "\<forall>r \<in> set rows. String_of (obj_get r k) = [] \<or> String_of (obj_get r k) = ''undefined'' \<or>
             toLowerCase (String_of (obj_get r k)) = ''true'' \<or>
             toLowerCase (String_of (obj_get r k)) = ''false''"
  shows "allTrueFalse (observedValues rows k)"
  using assms by (auto simp: allTrueFalse_def observedValues_def list_all_iff uniqueOf_set)

lemma refineFeature_boolean:
  assumes "t \<noteq> Numeric" and "allTrueFalse (observedValues rows k)"
  shows "refineFeature rows k \<lparr>fname = k, ftype = t, fstats = None, fvalues = None\<rparr> =
     \<lparr>fname = k, ftype = Boolean, fstats = None, fvalues = Some [''True'', ''False'']\<rparr>"
  using assms by (simp add: refineFeature_def Let_def)

text \<open>The cell of a feature inside an encoded row.\<close>

lemma concat_nth_block:
  assumes "p < length xs" and "j < length (g (xs ! p))"
  shows "concat (map g xs) ! (length (concat (map g (take p xs))) + j) = g (xs ! p) ! j"
proof -
  have "xs = take p xs @ xs ! p # drop (Suc p) xs"
    using assms(1) by (rule id_take_nth_drop)
  then have "concat (map g xs) =
      concat (map g (take p xs)) @ g (xs ! p) @ concat (map g (drop (Suc p) xs))"
    by (metis concat.simps(2) concat_append list.simps(9) map_append)
  then show ?thesis
    using assms(2) by (simp add: nth_append)
qed

lemma encodeRow_offset:
  assumes "\<forall>kf \<in> set fs. ftype (snd kf) = Categorical \<longrightarrow> encoderOf enc (fst kf) = valuesOf (snd kf)"
    and "p < length fs" and "j < length (encodeFeature enc r (fs ! p))"
  shows "encodeRow enc fs r ! (columnOffset fs p + j) = encodeFeature enc r (fs ! p) ! j"
proof -
  have "\<forall>kf \<in> set (take p fs). ftype (snd kf) = Categorical \<longrightarrow> encoderOf enc (fst kf) = valuesOf (snd kf)"
    using assms(1) by (meson in_set_takeD)
  then have "length (concat (map (encodeFeature enc r) (take p fs))) = columnOffset fs p"
    using encodeRow_length [of "take p fs" enc r] by (simp add: encodeRow_def columnOffset_def)
  then show ?thesis
    using concat_nth_block [of p fs j "encodeFeature enc r", OF assms(2,3)]
    by (simp add: encodeRow_def)
qed

lemma boolean_cell:
  assumes "ftype f = Boolean" and "String_of (obj_get r k) \<noteq> ''True''"
  shows "encodeFeature enc r (k, f) = [Fin 0]"
  using assms by (simp add: encodeFeature_def)

text \<open>
  C10 as the claim states it, for every column whose values all lowercase to
  \<open>true\<close> or \<open>false\<close>: under the name \<open>num_lanes\<close>, which is in the list of known
  numeric columns, such a column is numeric in the first loop and the second loop never
  looks at its values, so it is not recast to boolean.
\<close>

theorem known_numeric_column_stays_numeric:
  "map (\<lambda>r. toLowerCase (String_of (obj_get r ''num_lanes''))) lanesRows = [''true'', ''false''] \<and>
   map (\<lambda>kf. (fst kf, ftype (snd kf), fvalues (snd kf))) (inferFeatures lanesRows targetName) =
     [(''num_lanes'', Numeric, None)]"
proof -
  have "map (\<lambda>r. toLowerCase (String_of (obj_get r ''num_lanes''))) lanesRows = [''true'', ''false'']"
    by (simp add: lanesRows_def obj_get_def String_of_def toLowerCase_def lowerChar_def)
  moreover have "map (\<lambda>kf. (fst kf, ftype (snd kf), fvalues (snd kf))) (inferFeatures lanesRows targetName) =
     [(''num_lanes'', Numeric, None)]"
    by (simp add: inferFeatures_def lanesRows_def own_entries_def isArrayIndex_def isDigit_def
        targetName_def sniffType_def knownCategoricals_def knownNumeric_def refineFeature_def)
  ultimately show ?thesis
    by simp
qed

text \<open>A column of zeros stays a column of zeros under either scaler.\<close>

lemma encodedWidth_split:
  assumes "p < length fs"
  shows "encodedWidth fs = columnOffset fs p + featureWidth (snd (fs ! p)) + encodedWidth (drop (Suc p) fs)"
proof -
  have "fs = take p fs @ fs ! p # drop (Suc p) fs"
    using assms by (rule id_take_nth_drop)
  then have "encodedWidth fs = encodedWidth (take p fs @ fs ! p # drop (Suc p) fs)"
    by simp
  then show ?thesis
    by (simp add: encodedWidth_def columnOffset_def)
qed

lemma columnOrigin_offset:
  assumes "p < length fs" and "0 < featureWidth (snd (fs ! p))"
  shows "columnOrigin fs ! columnOffset fs p = ftype (snd (fs ! p))"
proof -
  let ?g = "\<lambda>kf. replicate (featureWidth (snd kf)) (ftype (snd kf))"
  have "length (concat (map ?g (take p fs))) = columnOffset fs p"
    using columnOrigin_length [of "take p fs"] by (simp add: columnOrigin_def columnOffset_def)
  moreover have "concat (map ?g fs) ! (length (concat (map ?g (take p fs))) + 0) = ?g (fs ! p) ! 0"
    using assms by (intro concat_nth_block) simp_all
  ultimately show ?thesis
    using assms(2) by (simp add: columnOrigin_def)
qed

lemma finiteValues_zeros: "finiteValues (replicate n (Fin 0)) = replicate n 0"
  by (induction n) (simp_all add: finiteValues_def)

lemma foldl_zeros:
  assumes "f (Fin 0) (Fin 0) = Fin 0"
  shows "foldl f (Fin 0) (replicate n (Fin 0)) = Fin 0"
  by (induction n) (simp_all add: assms)

lemma colMean_zeros:
  assumes "0 < n"
  shows "colMean (replicate n 0) = Fin 0"
proof -
  have f: "foldl js_add (Fin 0) (replicate n (Fin 0)) = Fin 0"
    by (rule foldl_zeros) (simp add: toDouble_zero)
  show ?thesis
    using assms by (simp add: colMean_def f toDouble_zero)
qed

lemma colStd_zeros:
  assumes "0 < n"
  shows "colStd (replicate n 0) = Fin 0"
proof -
  have g: "foldl (\<lambda>s v. js_add s (js_mul (js_sub v (Fin 0)) (js_sub v (Fin 0)))) (Fin 0)
             (replicate n (Fin 0)) = Fin 0"
    by (rule foldl_zeros) (simp add: js_sub_def toDouble_zero)
  show ?thesis
    by (simp add: colStd_def colMean_zeros [OF assms] g toDouble_zero)
qed

lemma fitColumn_zeros:
  assumes "map (\<lambda>r. getCell r c) Xmat = replicate n (Fin 0)" and "0 < n"
  shows "fitColumn Xmat c = \<lparr>cs_min = Fin 0, cs_max = Fin 0, cs_mean = Fin 0, cs_std = Fin 0\<rparr>"
proof -
  have xs: "finiteValues (map (\<lambda>r. getCell r c) Xmat) = replicate n 0"
    by (simp add: assms(1) finiteValues_zeros)
  have ne: "replicate n (0::real) \<noteq> []"
    using assms(2) by simp
  have s: "set (replicate n (0::real)) = {0}"
    using assms(2) by simp
  show ?thesis
    by (simp add: fitColumn_finite [OF xs ne] s colMean_zeros [OF assms(2)] colStd_zeros [OF assms(2)])
qed

lemma scaled_zero_column:
  assumes d: "distinct (map fst (features sch))" and i: "i < length rows"
    and c: "c < encodedWidth (own_entries (features sch))"
    and z: "\<forall>j < length rows. encodedMatrix sch rows ! j ! c = Fin 0"
    and o: "columnOrigin (own_entries (features sch)) ! c \<noteq> Categorical"
  shows "scaledMatrix t sch rows ! i ! c = Fin 0"
proof -
  have len: "length (encodedMatrix sch rows) = length rows"
    by (simp add: encodedMatrix_def)
  have "map (\<lambda>r. r ! c) (encodedMatrix sch rows) = replicate (length rows) (Fin 0)"
    using z by (intro nth_equalityI) (simp_all add: len)
  then have col: "map (\<lambda>r. getCell r c) (encodedMatrix sch rows) = replicate (length rows) (Fin 0)"
    by (simp only: encodedMatrix_column [OF d c])
  have n: "0 < length rows"
    using i by (cases rows) simp_all
  have "scaledMatrix t sch rows ! i ! c =
      scaleValue t (fitColumn (encodedMatrix sch rows) c) (encodedMatrix sch rows ! i ! c)"
    using scaledMatrix_cell(3) [OF d i c, of t] o by simp
  also have "\<dots> = scaleValue t \<lparr>cs_min = Fin 0, cs_max = Fin 0, cs_mean = Fin 0, cs_std = Fin 0\<rparr> (Fin 0)"
    using z i by (simp add: fitColumn_zeros [OF col n])
  also have "\<dots> = Fin 0"
    by (simp add: scaleValue_finite js_sub_def orElse_def toDouble_zero)
  finally show ?thesis .
qed
text \<open>
  C10, amended: let a column be one that the first loop of schema inference does not
  classify as numeric (it is in the list of known categorical columns, or it is in
  neither list and its sample has at most ten distinct values), let every value of the
  column be missing, empty or a spelling of \<open>true\<close> or \<open>false\<close> in any case, and let no
  value be the exact string \<open>True\<close>. Then the schema has the column as a boolean feature
  with the values \<open>True\<close> and \<open>False\<close>, and in every row the one cell that encodes the
  feature is \<open>0\<close>, before scaling and in the matrix that \<open>prepareMatrices\<close> stores,
  whichever scaler is used.
\<close>

theorem lowercase_booleans_encode_to_zero:
  assumes "ld_raw st = Some rows" and "rows \<noteq> []" and "obj_get (hd rows) targetName \<noteq> None"
    and "k \<in> fst ` set (hd rows)" and "k \<noteq> targetName" and "sniffType rows k \<noteq> Numeric"
    and "\<forall>r \<in> set rows. String_of (obj_get r k) = [] \<or> String_of (obj_get r k) = ''undefined'' \<or>
             toLowerCase (String_of (obj_get r k)) = ''true'' \<or>
             toLowerCase (String_of (obj_get r k)) = ''false''"
    and "\<forall>r \<in> set rows. String_of (obj_get r k) \<noteq> ''True''"
  shows "ld_schema (fst (inferSchema st)) = Some (inferredSchema rows) \<and>
    ld_X (fst (prepareMatrices (fst (inferSchema st)) scalerType seed)) =
      Some (scaledMatrix scalerType (inferredSchema rows) rows) \<and>
    map_of (features (inferredSchema rows)) k =
      Some \<lparr>fname = k, ftype = Boolean, fstats = None, fvalues = Some [''True'', ''False'']\<rparr> \<and>
    (\<forall>p < length (own_entries (features (inferredSchema rows))).
       fst (own_entries (features (inferredSchema rows)) ! p) = k \<longrightarrow>
       (\<forall>i < length rows.
          encodedMatrix (inferredSchema rows) rows ! i !
            columnOffset (own_entries (features (inferredSchema rows))) p = Fin 0 \<and>
          scaledMatrix scalerType (inferredSchema rows) rows ! i !
            columnOffset (own_entries (features (inferredSchema rows))) p = Fin 0))"
proof -
  let ?sch = "inferredSchema rows"
  let ?fs = "own_entries (features ?sch)"
  let ?b = "\<lparr>fname = k, ftype = Boolean, fstats = None, fvalues = Some [''True'', ''False'']\<rparr>"
  have s: "ld_schema (fst (inferSchema st)) = Some ?sch"
    by (rule inferSchema_schema(1) [OF assms(1,2,3)])
  have x: "ld_X (fst (prepareMatrices (fst (inferSchema st)) scalerType seed)) =
      Some (scaledMatrix scalerType ?sch rows)"
    by (rule prepareMatrices_X [OF s inferSchema_schema(2) [OF assms(1,2,3)]])
  have m: "map_of (features ?sch) k = Some ?b"
    using map_of_inferFeatures [OF assms(4,5)]
      refineFeature_boolean [OF assms(6) observed_all_true_false [OF assms(7)]]
    by (simp add: inferredSchema_def)
  have d: "distinct (map fst (features ?sch))"
    by (simp add: inferredSchema_def inferFeatures_distinct)
  have f: "?fs ! p = (k, ?b)" if p: "p < length ?fs" and kp: "fst (?fs ! p) = k" for p
  proof -
    have "?fs ! p \<in> set (features ?sch)"
      using p own_entries_set [of "features ?sch"] nth_mem by blast
    then have "(k, snd (?fs ! p)) \<in> set (features ?sch)"
      by (simp add: kp [symmetric])
    then have "map_of (features ?sch) k = Some (snd (?fs ! p))"
      using d by (simp add: map_of_eq_Some_iff)
    then show ?thesis
      using m kp by (simp add: prod_eq_iff)
  qed
  have cell: "encodedMatrix ?sch rows ! i ! columnOffset ?fs p = Fin 0"
    if p: "p < length ?fs" and kp: "fst (?fs ! p) = k" and i: "i < length rows" for p i
  proof -
    have r: "String_of (obj_get (rows ! i) k) \<noteq> ''True''"
      using assms(8) i by simp
    have e: "encodeFeature (encodersOf ?sch) (rows ! i) (?fs ! p) = [Fin 0]"
      unfolding f [OF p kp] by (rule boolean_cell [OF _ r]) simp
    have "encodeRow (encodersOf ?sch) ?fs (rows ! i) ! (columnOffset ?fs p + 0) =
        encodeFeature (encodersOf ?sch) (rows ! i) (?fs ! p) ! 0"
      by (rule encodeRow_offset [OF schema_encoders [OF d] p]) (simp add: e)
    then show ?thesis
      using i by (simp add: encodedMatrix_def e)
  qed
  have scaled: "scaledMatrix scalerType ?sch rows ! i ! columnOffset ?fs p = Fin 0"
    if p: "p < length ?fs" and kp: "fst (?fs ! p) = k" and i: "i < length rows" for p i
  proof -
    have w: "featureWidth (snd (?fs ! p)) = 1"
      by (simp add: f [OF p kp] featureWidth_def)
    have c: "columnOffset ?fs p < encodedWidth ?fs"
      using encodedWidth_split [OF p] w by simp
    have o: "columnOrigin ?fs ! columnOffset ?fs p \<noteq> Categorical"
      using columnOrigin_offset [OF p] w by (simp add: f [OF p kp])
    show ?thesis
      using cell [OF p kp] by (intro scaled_zero_column [OF d i c _ o]) simp
  qed
  from s x m cell scaled show ?thesis
    by blast
qed

lemma flag_values: "map (\<lambda>r. String_of (obj_get r ''flag'')) flagRows = [''true'', ''false'']"
  by (simp add: flagRows_def obj_get_def String_of_def)

lemma flag_sniffed: "sniffType flagRows ''flag'' = Categorical"
  by (simp add: sniffType_def knownCategoricals_def knownNumeric_def sampleVals_def flagRows_def
      obj_get_def String_of_def uniqueOf_def Let_def)

lemma flag_features:
  "inferFeatures flagRows targetName =
     [(''flag'', \<lparr>fname = ''flag'', ftype = Boolean, fstats = None, fvalues = Some [''True'', ''False'']\<rparr>)]"
proof -
  have o: "observedValues flagRows ''flag'' = [''true'', ''false'']"
    by (simp add: observedValues_def flag_values uniqueOf_def)
  have a: "allTrueFalse [''true'', ''false'']"
    by (simp add: allTrueFalse_def toLowerCase_def lowerChar_def)
  have e: "own_entries (hd flagRows) = hd flagRows"
    by (simp add: own_entries_def flagRows_def isArrayIndex_def isDigit_def)
  show ?thesis
    unfolding inferFeatures_def e Let_def
    by (simp add: flagRows_def targetName_def own_entries_def isArrayIndex_def isDigit_def
        flag_sniffed [unfolded flagRows_def] refineFeature_def o [unfolded flagRows_def] a)
qed

theorem lowercase_booleans_encode_to_zero_witness:
  "ld_raw flagLoader = Some flagRows \<and> flagRows \<noteq> [] \<and>
   obj_get (hd flagRows) targetName = Some ''0.2'' \<and>
   ''flag'' \<in> fst ` set (hd flagRows) \<and> ''flag'' \<noteq> targetName \<and>
   sniffType flagRows ''flag'' = Categorical \<and>
   map (\<lambda>r. String_of (obj_get r ''flag'')) flagRows = [''true'', ''false''] \<and>
   toLowerCase ''true'' = ''true'' \<and> toLowerCase ''false'' = ''false'' \<and>
   ld_schema (fst (inferSchema flagLoader)) = Some (inferredSchema flagRows) \<and>
   own_entries (features (inferredSchema flagRows)) =
     [(''flag'', \<lparr>fname = ''flag'', ftype = Boolean, fstats = None, fvalues = Some [''True'', ''False'']\<rparr>)] \<and>
   encodedMatrix (inferredSchema flagRows) flagRows ! 0 !
     columnOffset (own_entries (features (inferredSchema flagRows))) 0 = Fin 0 \<and>
   encodedMatrix (inferredSchema flagRows) flagRows ! 1 !
     columnOffset (own_entries (features (inferredSchema flagRows))) 0 = Fin 0 \<and>
   scaledMatrix ''standard'' (inferredSchema flagRows) flagRows ! 1 !
     columnOffset (own_entries (features (inferredSchema flagRows))) 0 = Fin 0"
proof -
  have h1: "ld_raw flagLoader = Some flagRows"
    by (simp add: flagLoader_def newLoader_def)
  have h2: "flagRows \<noteq> []"
    by (simp add: flagRows_def)
  have tg: "obj_get (hd flagRows) targetName = Some ''0.2''"
    by (simp add: flagRows_def obj_get_def targetName_def)
  then have h3: "obj_get (hd flagRows) targetName \<noteq> None"
    by simp
  have h4: "''flag'' \<in> fst ` set (hd flagRows)"
    by (simp add: flagRows_def)
  have h5: "''flag'' \<noteq> targetName"
    by (simp add: targetName_def)
  have h6: "sniffType flagRows ''flag'' \<noteq> Numeric"
    by (simp add: flag_sniffed)
  have lo: "toLowerCase ''true'' = ''true''" "toLowerCase ''false'' = ''false''"
    by (simp_all add: toLowerCase_def lowerChar_def)
  have vs: "String_of (obj_get r ''flag'') = ''true'' \<or> String_of (obj_get r ''flag'') = ''false''"
    if "r \<in> set flagRows" for r
    using that by (auto simp: flagRows_def obj_get_def String_of_def)
  have h7: "\<forall>r \<in> set flagRows. String_of (obj_get r ''flag'') = [] \<or>
             String_of (obj_get r ''flag'') = ''undefined'' \<or>
             toLowerCase (String_of (obj_get r ''flag'')) = ''true'' \<or>
             toLowerCase (String_of (obj_get r ''flag'')) = ''false''"
    using vs lo by metis
  have h8: "\<forall>r \<in> set flagRows. String_of (obj_get r ''flag'') \<noteq> ''True''"
    using vs by fastforce
  note t = lowercase_booleans_encode_to_zero [OF h1 h2 h3 h4 h5 h6 h7 h8, of "''standard''" "Fin 2025"]
  have fs: "own_entries (features (inferredSchema flagRows)) =
     [(''flag'', \<lparr>fname = ''flag'', ftype = Boolean, fstats = None, fvalues = Some [''True'', ''False'']\<rparr>)]"
    by (simp add: inferredSchema_def flag_features own_entries_def isArrayIndex_def isDigit_def)
  have l: "length flagRows = 2"
    by (simp add: flagRows_def)
  have c: "encodedMatrix (inferredSchema flagRows) flagRows ! i !
     columnOffset (own_entries (features (inferredSchema flagRows))) 0 = Fin 0 \<and>
     scaledMatrix ''standard'' (inferredSchema flagRows) flagRows ! i !
     columnOffset (own_entries (features (inferredSchema flagRows))) 0 = Fin 0" if "i < 2" for i
    using t that by (simp add: fs l)
  show ?thesis
    using t c [of 0] c [of 1] by (simp add: h1 h2 tg h4 h5 flag_sniffed flag_values lo fs)
qed

end
